theory Spec2Isabelle
  imports Main "HOL-Library.Word"
begin

section \<open>The data of memoryAllocator.c\<close>

text \<open>
  The allocator is modelled for the LP64 data model: \<open>size_t\<close> and pointers are 64-bit
  words, \<open>unsigned\<close> is a 32-bit word. Pointer arithmetic is word arithmetic, so it wraps
  as the machine does. The null pointer is the address 0.
\<close>

type_synonym addr = "64 word"
type_synonym size_t = "64 word"

abbreviation NULL :: addr where
  "NULL \<equiv> 0"

text \<open>
  \<open>union header\<close>: the struct \<open>s\<close> with its three fields. The 16-byte \<open>stub\<close> member only
  pads the union and carries no data.
\<close>

record header =
  s_size :: size_t
  s_is_free :: "32 word"
  s_next :: addr

text \<open>
  \<open>sizeof(header_t)\<close>. Under LP64 the struct holds an 8-byte \<open>size_t\<close>, a 4-byte
  \<open>unsigned\<close> followed by 4 bytes of padding, and an 8-byte pointer: 24 bytes, which is
  more than the 16-byte stub, so the union is 24 bytes long.
\<close>

definition header_size :: size_t where
  "header_size = 24"

text \<open>
  What the allocator calls from outside, in call order: the two mutex operations and the
  break primitive with the increment it was given. The log is instrumentation of the model;
  no function reads it.
\<close>

datatype event = Lock | Unlock | Sbrk "64 word"

text \<open>
  The process state the allocator works on. \<open>hmem\<close> holds the header found at each
  address and \<open>bytes\<close> the payload bytes. Headers and payload bytes are kept in two
  stores, and a header is one record at its address: the model does not follow a payload
  write that runs over a header, nor two headers less than \<open>sizeof(header_t)\<close> apart,
  which share bytes in memory. Neither occurs in a well-formed state (\<open>heap_ok\<close> below)
  with writes inside of a payload, nor in the example states; what is stated about new
  headers and payload writes is stated for these.
  \<open>head\<close> and \<open>tail\<close> are the two globals of the source. \<open>brk\<close> is the program
  break; \<open>brk_lo\<close> and \<open>brk_hi\<close> are the lowest and highest value the operating system
  lets the break take. Which memory can be accessed follows from \<open>brk_lo\<close> and \<open>brk\<close>
  (\<open>accessible\<close> below).
\<close>

record state =
  hmem :: "addr \<Rightarrow> header"
  bytes :: "addr \<Rightarrow> 8 word"
  head :: addr
  tail :: addr
  brk :: addr
  brk_lo :: addr
  brk_hi :: addr
  events :: "event list"

section \<open>The external collaborators\<close>

definition pthread_mutex_lock :: "state \<Rightarrow> state" where
  "pthread_mutex_lock s = s\<lparr>events := events s @ [Lock]\<rparr>"

definition pthread_mutex_unlock :: "state \<Rightarrow> state" where
  "pthread_mutex_unlock s = s\<lparr>events := events s @ [Unlock]\<rparr>"

text \<open>
  Modelled from the spec: the Break Interface \<open>sbrk\<close>, which is not part of the
  repository. It moves the end of the data region by a signed byte delta and reports the
  prior boundary, or the failure sentinel \<open>(void * ) -1\<close> when the request cannot be
  satisfied; with delta 0 it reports the current boundary. The increment has type
  \<open>intptr_t\<close>, so the \<open>size_t\<close> argument of the source is read as two's complement. A
  request fails when it would take the break outside of \<open>brk_lo .. brk_hi\<close>.
\<close>

definition sbrk :: "64 word \<Rightarrow> state \<Rightarrow> addr \<times> state" where
  "sbrk increment s =
     (let s1 = s\<lparr>events := events s @ [Sbrk increment]\<rparr>;
          new = uint (brk s) + sint increment
      in if increment = 0 then (brk s, s1)
         else if uint (brk_lo s) \<le> new \<and> new \<le> uint (brk_hi s)
              then (brk s, s1\<lparr>brk := brk s + increment\<rparr>)
              else (- 1, s1))"

text \<open>
  The memory protection of the platform, which is not part of the repository either. The
  operating system backs the data segment by whole pages of 4096 bytes: the bytes from
  \<open>brk_lo\<close> up to the end of the page that holds the last byte below the break can be
  read and written, and an access beyond them kills the process. With the break on a page
  boundary nothing at or above it can be accessed; otherwise the rest of its page can,
  although \<open>sbrk\<close> has not granted it. \<open>accessible s a n\<close> says that the \<open>n\<close> bytes from
  \<open>a\<close> can be accessed in \<open>s\<close>.
\<close>

definition page_size :: nat where
  "page_size = 4096"

definition page_up :: "nat \<Rightarrow> nat" where
  "page_up n = ((n + (page_size - 1)) div page_size) * page_size"

definition accessible :: "state \<Rightarrow> addr \<Rightarrow> nat \<Rightarrow> bool" where
  "accessible s a n = (unat (brk_lo s) \<le> unat a \<and> unat a + n \<le> page_up (unat (brk s)))"

text \<open>
  \<open>memset\<close> and \<open>memcpy\<close> of the C library on the payload store. The \<open>n\<close> bytes from \<open>p\<close>
  are the addresses \<open>a\<close> with \<open>a - p < n\<close>. A call that touches bytes which cannot be
  accessed does not return: it has no result here. \<open>memcpy\<close> is defined by the C standard
  only when source and destination do not overlap; otherwise it has no result either.
\<close>

definition memset :: "addr \<Rightarrow> 8 word \<Rightarrow> size_t \<Rightarrow> state \<Rightarrow> state option" where
  "memset p c n s =
     (if accessible s p (unat n)
      then Some (s\<lparr>bytes := (\<lambda>a. if a - p < n then c else bytes s a)\<rparr>)
      else None)"

definition memcpy :: "addr \<Rightarrow> addr \<Rightarrow> size_t \<Rightarrow> state \<Rightarrow> state option" where
  "memcpy dst src n s =
     (if accessible s dst (unat n) \<and> accessible s src (unat n) \<and>
         (n = 0 \<or> unat dst + unat n \<le> unat src \<or> unat src + unat n \<le> unat dst)
      then Some (s\<lparr>bytes := (\<lambda>a. if a - dst < n then bytes s (src + (a - dst))
                                 else bytes s a)\<rparr>)
      else None)"

text \<open>Unsigned division of \<open>size_t\<close>; dividing by zero is undefined in C: no result.\<close>

definition size_div :: "size_t \<Rightarrow> size_t \<Rightarrow> size_t option" where
  "size_div a b = (if b = 0 then None else Some (a div b))"

section \<open>The functions of memoryAllocator.c\<close>

text \<open>
  A result \<open>None\<close> of a function below means that the call does not return: a walk of
  the list that never ends, a library call outside of its contract, or a write to memory
  that cannot be accessed, which kills the process. The writes that are checked are those
  to memory the list does not hold yet: the new header in \<open>malloc\<close> (lines 126 to 129 of
  the source) and the payload bytes in \<open>calloc\<close> and \<open>realloc\<close>. The headers of the list
  are taken to be in accessible memory.
\<close>

text \<open>The loop of \<open>get_free_block\<close>, from \<open>cur\<close> on.\<close>

partial_function (option) get_free_block_from :: "(addr \<Rightarrow> header) \<Rightarrow> size_t \<Rightarrow> addr \<Rightarrow> addr option" where
  "get_free_block_from m sz cur =
     (if cur = NULL then Some NULL
      else if s_is_free (m cur) \<noteq> 0 \<and> s_size (m cur) \<ge> sz then Some cur
      else get_free_block_from m sz (s_next (m cur)))"

definition get_free_block :: "size_t \<Rightarrow> state \<Rightarrow> addr option" where
  "get_free_block sz s = get_free_block_from (hmem s) sz (head s)"

text \<open>
  The loop in the shrink path of \<open>free\<close>, from \<open>tmp\<close> on: the header whose \<open>next\<close> is the
  tail loses its link and becomes the tail.
\<close>

partial_function (option) unlink_loop :: "addr \<Rightarrow> state \<Rightarrow> state option" where
  "unlink_loop tmp s =
     (if tmp = NULL then Some s
      else let s1 = (if s_next (hmem s tmp) = tail s
                     then s\<lparr>hmem := (hmem s)(tmp := (hmem s tmp)\<lparr>s_next := NULL\<rparr>), tail := tmp\<rparr>
                     else s)
           in unlink_loop (s_next (hmem s1 tmp)) s1)"

text \<open>
  The list surgery in the shrink path of \<open>free\<close>: with a single header the list becomes
  empty, otherwise the loop cuts the tail off.
\<close>

definition unlink_tail :: "state \<Rightarrow> state option" where
  "unlink_tail s =
     (if head s = tail s then Some (s\<lparr>head := NULL, tail := NULL\<rparr>)
      else unlink_loop (head s) s)"

definition free :: "addr \<Rightarrow> state \<Rightarrow> state option" where
  "free block s =
     (if block = NULL then Some s
      else
        let s1 = pthread_mutex_lock s;
            header = block - header_size;
            (programbreak, s2) = sbrk 0 s1
        in if block + s_size (hmem s2 header) = programbreak
           then Option.bind (unlink_tail s2)
                  (\<lambda>s3. let (r, s4) = sbrk (0 - s_size (hmem s3 header) - header_size) s3
                        in Some (pthread_mutex_unlock s4))
           else Some (pthread_mutex_unlock
                        (s2\<lparr>hmem := (hmem s2)(header := (hmem s2 header)\<lparr>s_is_free := 1\<rparr>)\<rparr>)))"

definition malloc :: "size_t \<Rightarrow> state \<Rightarrow> (addr \<times> state) option" where
  "malloc sz s =
     (if sz = 0 then Some (NULL, s)
      else
        let s1 = pthread_mutex_lock s
        in Option.bind (get_free_block sz s1) (\<lambda>header.
             if header \<noteq> NULL
             then Some (header + header_size,
                        pthread_mutex_unlock
                          (s1\<lparr>hmem := (hmem s1)(header := (hmem s1 header)\<lparr>s_is_free := 0\<rparr>)\<rparr>))
             else
               let total_size = header_size + sz;
                   (block, s2) = sbrk total_size s1
               in if block = - 1 then Some (NULL, pthread_mutex_unlock s2)
                  else if accessible s2 block (unat header_size)
                  then
                    let header = block;
                        s3 = s2\<lparr>hmem := (hmem s2)
                                  (header := \<lparr>s_size = sz, s_is_free = 0, s_next = NULL\<rparr>)\<rparr>;
                        s4 = (if head s3 = NULL then s3\<lparr>head := header\<rparr> else s3);
                        s5 = (if tail s4 \<noteq> NULL
                              then s4\<lparr>hmem := (hmem s4)
                                        (tail s4 := (hmem s4 (tail s4))\<lparr>s_next := header\<rparr>)\<rparr>
                              else s4);
                        s6 = s5\<lparr>tail := header\<rparr>
                    in Some (header + header_size, pthread_mutex_unlock s6)
                  else None))"

definition calloc :: "size_t \<Rightarrow> size_t \<Rightarrow> state \<Rightarrow> (addr \<times> state) option" where
  "calloc num nsize s =
     (if num = 0 \<or> nsize = 0 then Some (NULL, s)
      else
        let sz = num * nsize
        in Option.bind (size_div sz num) (\<lambda>q.
             if nsize \<noteq> q then Some (NULL, s)
             else Option.bind (malloc sz s) (\<lambda>(block, s1).
                    if block = NULL then Some (NULL, s1)
                    else Option.bind (memset block 0 sz s1) (\<lambda>s2. Some (block, s2)))))"

definition realloc :: "addr \<Rightarrow> size_t \<Rightarrow> state \<Rightarrow> (addr \<times> state) option" where
  "realloc block sz s =
     (if block = NULL \<or> sz = 0 then malloc sz s
      else
        let header = block - header_size
        in if s_size (hmem s header) \<ge> sz then Some (block, s)
           else Option.bind (malloc sz s) (\<lambda>(ret, s1).
                  if ret \<noteq> NULL
                  then Option.bind (memcpy ret block (s_size (hmem s1 header)) s1)
                         (\<lambda>s2. Option.bind (free block s2) (\<lambda>s3. Some (ret, s3)))
                  else Some (ret, s1)))"

text \<open>
  The traversal of \<open>print_mem_list\<close>, from \<open>cur\<close> on: the addresses of the headers it
  prints, in order. \<open>print_mem_list\<close> starts it at \<open>head\<close>; its result is the directory of
  the allocator.
\<close>

partial_function (option) mem_list :: "(addr \<Rightarrow> header) \<Rightarrow> addr \<Rightarrow> addr list option" where
  "mem_list m cur =
     (if cur = NULL then Some []
      else Option.bind (mem_list m (s_next (m cur))) (\<lambda>rest. Some (cur # rest)))"

definition print_mem_list :: "state \<Rightarrow> addr list option" where
  "print_mem_list s = mem_list (hmem s) (head s)"

section \<open>Notions for the statements\<close>

text \<open>
  The test of \<open>get_free_block\<close> on one header: it is free and large enough for \<open>sz\<close>.
\<close>

definition fits :: "size_t \<Rightarrow> (addr \<Rightarrow> header) \<Rightarrow> addr \<Rightarrow> bool" where
  "fits sz m h = (s_is_free (m h) \<noteq> 0 \<and> sz \<le> s_size (m h))"

text \<open>The header at \<open>h\<close> is in the directory of \<open>s\<close>.\<close>

definition in_dir :: "addr \<Rightarrow> state \<Rightarrow> bool" where
  "in_dir h s = (case print_mem_list s of None \<Rightarrow> False | Some as \<Rightarrow> h \<in> set as)"

text \<open>
  The first address after the block of the header at \<open>h\<close>, computed without wrap-around.
\<close>

definition blk_end :: "(addr \<Rightarrow> header) \<Rightarrow> addr \<Rightarrow> nat" where
  "blk_end m h = unat h + unat header_size + unat (s_size (m h))"

text \<open>
  The states the allocator keeps to as long as only its own calls move the break and no
  request is so large that its size overflows: the list from \<open>head\<close> ends, \<open>tail\<close> is its
  last header, the blocks lie in list order one after the other without overlap, between
  \<open>brk_lo\<close> and the break, and the break stays in the lower half of the address space.
\<close>

definition heap_ok :: "state \<Rightarrow> bool" where
  "heap_ok s =
     (case print_mem_list s of
        None \<Rightarrow> False
      | Some as \<Rightarrow>
          tail s = (if as = [] then NULL else last as) \<and>
          sorted_wrt (\<lambda>a b. blk_end (hmem s) a \<le> unat b) as \<and>
          (\<forall>h \<in> set as. unat (brk_lo s) \<le> unat h \<and> blk_end (hmem s) h \<le> unat (brk s)) \<and>
          0 < unat (brk_lo s) \<and> unat (brk_lo s) \<le> unat (brk s) \<and>
          unat (brk s) \<le> unat (brk_hi s) \<and> unat (brk_hi s) < 2 ^ 63)"

section \<open>Runs of operations\<close>






section \<open>States used as examples\<close>

text \<open>
  The state at process start: \<open>head\<close> and \<open>tail\<close> are \<open>NULL\<close> as their initialisers say,
  the break stands at \<open>b\<close> and may rise up to \<open>hi\<close>. Memory is taken to be zeroed.
\<close>

definition initial :: "addr \<Rightarrow> addr \<Rightarrow> state" where
  "initial b hi =
     \<lparr>hmem = (\<lambda>a. \<lparr>s_size = 0, s_is_free = 0, s_next = NULL\<rparr>), bytes = (\<lambda>a. 0),
      head = NULL, tail = NULL, brk = b, brk_lo = b, brk_hi = hi, events = []\<rparr>"

text \<open>The state after \<open>malloc(64)\<close> at process start with the break at \<open>0x1000\<close>.\<close>

definition one_block :: state where
  "one_block =
     \<lparr>hmem = (\<lambda>a. \<lparr>s_size = 0, s_is_free = 0, s_next = NULL\<rparr>)
               (0x1000 := \<lparr>s_size = 64, s_is_free = 0, s_next = NULL\<rparr>),
      bytes = (\<lambda>a. 0), head = 0x1000, tail = 0x1000, brk = 0x1058, brk_lo = 0x1000,
      brk_hi = 0x2000, events = [Lock, Sbrk 88, Unlock]\<rparr>"

text \<open>The state after a second \<open>malloc(64)\<close>.\<close>

definition two_blocks :: state where
  "two_blocks =
     \<lparr>hmem = (\<lambda>a. \<lparr>s_size = 0, s_is_free = 0, s_next = NULL\<rparr>)
               (0x1058 := \<lparr>s_size = 64, s_is_free = 0, s_next = NULL\<rparr>,
                0x1000 := \<lparr>s_size = 64, s_is_free = 0, s_next = 0x1058\<rparr>),
      bytes = (\<lambda>a. 0), head = 0x1000, tail = 0x1058, brk = 0x10B0, brk_lo = 0x1000,
      brk_hi = 0x2000, events = [Lock, Sbrk 88, Unlock, Lock, Sbrk 88, Unlock]\<rparr>"



text \<open>The state with one block and no room left above the break.\<close>

definition full_block :: state where
  "full_block = one_block\<lparr>brk_hi := 0x1058\<rparr>"

text \<open>The state with two blocks where every byte holds the low byte of its address.\<close>

definition two_blocks_data :: state where
  "two_blocks_data = two_blocks\<lparr>bytes := (\<lambda>a. ucast a)\<rparr>"

text \<open>
  The state after \<open>malloc(64)\<close> and \<open>malloc(SIZE_MAX - 23)\<close> at process start. For the
  second call \<open>header_size + size\<close> wraps to 0: \<open>sbrk(0)\<close> leaves the break at \<open>0x1058\<close>, and
  the header of the second block is written there, behind the end of the first block.
\<close>

definition overflowed :: state where
  "overflowed =
     \<lparr>hmem = (\<lambda>a. \<lparr>s_size = 0, s_is_free = 0, s_next = NULL\<rparr>)
               (0x1058 := \<lparr>s_size = - 24, s_is_free = 0, s_next = NULL\<rparr>,
                0x1000 := \<lparr>s_size = 64, s_is_free = 0, s_next = 0x1058\<rparr>),
      bytes = (\<lambda>a. 0), head = 0x1000, tail = 0x1058, brk = 0x1058, brk_lo = 0x1000,
      brk_hi = 0x2000, events = [Lock, Sbrk 88, Unlock, Lock, Sbrk 0, Unlock]\<rparr>"

section \<open>Arithmetic of \<open>size_t\<close> and of addresses\<close>

lemma mul_div_roundtrip:
  fixes num nsize :: "64 word"
  assumes "num \<noteq> 0"
  shows "(nsize = (num * nsize) div num) = (unat num * unat nsize < 2 ^ 64)"
proof (cases "unat num * unat nsize < 2 ^ 64")
  case True
  have n0: "0 < unat num" using assms by (simp add: unat_gt_0)
  have "unat (num * nsize) = unat num * unat nsize"
    using True by (simp add: unat_word_ariths)
  then have "unat ((num * nsize) div num) = unat nsize"
    using n0 by (simp add: unat_div)
  then have "(num * nsize) div num = nsize" by (simp add: word_unat_eq_iff)
  with True show ?thesis by simp
next
  case False
  have n0: "0 < unat num" using assms by (simp add: unat_gt_0)
  have nlt: "unat num < 2 ^ 64" using unsigned_less [of num, where ?'a=nat] by simp
  have k0: "0 < unat nsize" using False by (cases "unat nsize = 0") auto
  define P where "P = unat num * unat nsize"
  have Pge: "2 ^ 64 \<le> P" using False by (simp add: P_def)
  have "P mod 2 ^ 64 \<le> P - 2 ^ 64"
    using Pge by (metis le_mod_geq mod_less_eq_dividend)
  also have "\<dots> < unat num * (unat nsize - 1)"
  proof -
    have "unat num * (unat nsize - 1) = P - unat num"
      using k0 by (simp add: P_def algebra_simps)
    then show ?thesis using nlt Pge n0 by linarith
  qed
  finally have "P mod 2 ^ 64 < (unat nsize - 1) * unat num"
    by (simp add: mult.commute)
  then have "(P mod 2 ^ 64) div unat num < unat nsize - 1"
    by (rule less_mult_imp_div_less)
  then have "(P mod 2 ^ 64) div unat num \<noteq> unat nsize" by simp
  then have "unat ((num * nsize) div num) \<noteq> unat nsize"
    by (simp add: unat_div unat_word_ariths P_def)
  then have "nsize \<noteq> (num * nsize) div num" by auto
  with False show ?thesis by simp
qed

lemma word_of_nat_less_unat:
  fixes w :: "'a::len word"
  assumes "i < unat w"
  shows "word_of_nat i < w"
proof -
  have "unat (word_of_nat i :: 'a word) \<le> i"
    by (simp add: unat_of_nat)
  then show ?thesis using assms by (simp add: word_less_nat_alt)
qed

lemma sint_word_of_int_64:
  assumes "- (2 ^ 63) \<le> k" and "k < 2 ^ 63"
  shows "sint (word_of_int k :: 64 word) = k"
proof -
  have "sint (word_of_int k :: 64 word) = signed_take_bit 63 k"
    by (simp add: sint_sbintrunc')
  then show ?thesis using assms by (simp add: signed_take_bit_int_eq_self)
qed

lemma sint_grow:
  fixes sz :: size_t
  assumes "unat sz + 24 < 2 ^ 63"
  shows "sint (header_size + sz) = int (unat sz) + 24"
proof -
  define k where "k = int (unat sz) + 24"
  have A: "header_size + sz = word_of_int k"
    by (simp add: header_size_def k_def)
  have B: "sint (word_of_int k :: 64 word) = k"
    using assms by (intro sint_word_of_int_64) (simp_all add: k_def del: of_nat_unat)
  from B show ?thesis unfolding A k_def .
qed

lemma sint_shrink:
  fixes sz :: size_t
  assumes "unat sz + 24 < 2 ^ 63"
  shows "sint (0 - sz - header_size) = - (int (unat sz) + 24)"
proof -
  define k where "k = - (int (unat sz) + 24)"
  have A: "0 - sz - header_size = word_of_int k"
    by (simp add: header_size_def k_def)
  have B: "sint (word_of_int k :: 64 word) = k"
    using assms by (intro sint_word_of_int_64) (simp_all add: k_def del: of_nat_unat)
  from B show ?thesis unfolding A k_def .
qed

lemma shrink_nonzero:
  fixes sz :: size_t
  assumes "unat sz + 24 < 2 ^ 63"
  shows "0 - sz - header_size \<noteq> 0"
proof
  assume "0 - sz - header_size = 0"
  then have "sint (0 - sz - header_size) = 0" by (simp only: sint_0)
  then have "- (int (unat sz) + 24) = 0" by (simp only: sint_shrink [OF assms])
  then show False by arith
qed

lemma grow_nonzero:
  fixes sz :: size_t
  assumes "unat sz + 24 < 2 ^ 63"
  shows "header_size + sz \<noteq> 0"
proof
  assume "header_size + sz = 0"
  then have "sint (header_size + sz) = 0" by (simp only: sint_0)
  then have "int (unat sz) + 24 = 0" by (simp only: sint_grow [OF assms])
  then show False by arith
qed

lemma wrapped_total:
  fixes sz :: size_t
  assumes "2 ^ 64 - 24 \<le> unat sz"
  shows "unat (header_size + sz) = unat sz + 24 - 2 ^ 64"
    and "unat (header_size + sz) < 24"
    and "sint (header_size + sz) = int (unat (header_size + sz))"
proof -
  have lt: "unat sz < 2 ^ 64" using unsigned_less [of sz, where ?'a = nat] by simp
  have "unat (header_size + sz) = (24 + unat sz) mod 2 ^ 64"
    by (simp add: header_size_def unat_word_ariths)
  also have "\<dots> = 24 + unat sz - 2 ^ 64"
    using assms lt by (simp add: mod_if)
  finally show 1: "unat (header_size + sz) = unat sz + 24 - 2 ^ 64" by simp
  then show 2: "unat (header_size + sz) < 24" using lt by simp
  have "sint (word_of_int (int (unat (header_size + sz))) :: 64 word) =
        int (unat (header_size + sz))"
    using 2 by (intro sint_word_of_int_64) (simp_all del: of_nat_unat)
  then show "sint (header_size + sz) = int (unat (header_size + sz))"
    by simp
qed

lemma blk_end_gt: "unat h < blk_end m h"
  by (simp add: blk_end_def header_size_def)

lemma blk_arith:
  fixes h b :: addr
  assumes "blk_end m h \<le> unat b" and "unat b < 2 ^ 63"
  shows "unat (h + header_size) = unat h + 24"
    and "unat (h + header_size + s_size (m h)) = blk_end m h"
    and "unat (s_size (m h)) + 24 < 2 ^ 63"
proof -
  have b: "unat h + 24 + unat (s_size (m h)) < 2 ^ 63"
    using assms by (simp add: blk_end_def header_size_def)
  then show 1: "unat (h + header_size) = unat h + 24"
    by (simp add: header_size_def unat_word_ariths)
  show "unat (h + header_size + s_size (m h)) = blk_end m h"
    using b 1 by (simp add: blk_end_def header_size_def unat_word_ariths)
  show "unat (s_size (m h)) + 24 < 2 ^ 63" using b by simp
qed

lemma blk_end_upd_other [simp]: "a \<noteq> h \<Longrightarrow> blk_end (m(a := v)) h = blk_end m h"
  by (simp add: blk_end_def)

lemma blk_end_upd_same_size: "s_size v = s_size (m a) \<Longrightarrow> blk_end (m(a := v)) h = blk_end m h"
  by (simp add: blk_end_def)

lemma blk_end_upd_fun:
  "s_size v = s_size (m a) \<Longrightarrow> blk_end (m(a := v)) = blk_end m"
  by (rule ext) (simp add: blk_end_upd_same_size)

section \<open>Lists\<close>

lemma find_in_list: "find P xs = Some x \<Longrightarrow> x \<in> set xs \<and> P x"
  by (induction xs) (auto split: if_splits)

lemma find_split:
  "find P xs = Some x \<Longrightarrow> \<exists>pre post. xs = pre @ x # post \<and> (\<forall>y \<in> set pre. \<not> P y) \<and> P x"
proof (induction xs)
  case Nil
  then show ?case by simp
next
  case (Cons a xs)
  show ?case
  proof (cases "P a")
    case True
    with Cons.prems have "a = x" by simp
    with True show ?thesis by (intro exI [of _ "[]"] exI [of _ xs]) simp
  next
    case False
    with Cons.prems have "find P xs = Some x" by simp
    from Cons.IH [OF this] obtain pre post
      where "xs = pre @ x # post" "\<forall>y \<in> set pre. \<not> P y" "P x" by blast
    with False show ?thesis by (intro exI [of _ "a # pre"] exI [of _ post]) simp
  qed
qed


lemma sorted_wrt_either:
  "sorted_wrt R xs \<Longrightarrow> x \<in> set xs \<Longrightarrow> y \<in> set xs \<Longrightarrow> x \<noteq> y \<Longrightarrow> R x y \<or> R y x"
  by (induction xs) auto

section \<open>The walk of the header list\<close>

lemma mem_list_NULL [simp]: "mem_list m NULL = Some []"
  by (simp add: mem_list.simps)

lemma mem_list_step:
  "cur \<noteq> NULL \<Longrightarrow>
   mem_list m cur = Option.bind (mem_list m (s_next (m cur))) (\<lambda>rest. Some (cur # rest))"
  by (subst mem_list.simps) simp

lemma mem_list_Nil [simp]: "mem_list m cur = Some [] \<longleftrightarrow> cur = NULL"
  by (cases "cur = NULL") (auto simp: mem_list_step split: bind_splits)

lemma mem_list_Cons:
  "mem_list m cur = Some (a # as) \<longleftrightarrow>
   cur \<noteq> NULL \<and> a = cur \<and> mem_list m (s_next (m cur)) = Some as"
  by (cases "cur = NULL") (auto simp: mem_list_step split: bind_splits)

lemma mem_list_nonnull: "mem_list m cur = Some as \<Longrightarrow> NULL \<notin> set as"
  by (induction as arbitrary: cur) (auto simp: mem_list_Cons)

lemma mem_list_suffix:
  "mem_list m cur = Some as \<Longrightarrow> a \<in> set as \<Longrightarrow>
   \<exists>bs. mem_list m a = Some bs \<and> length bs \<le> length as"
proof (induction as arbitrary: cur)
  case Nil
  then show ?case by simp
next
  case (Cons x xs)
  from Cons.prems(1) have x: "cur \<noteq> NULL" "x = cur" "mem_list m (s_next (m cur)) = Some xs"
    by (simp_all add: mem_list_Cons)
  show ?case
  proof (cases "a = x")
    case True
    then show ?thesis using Cons.prems(1) x by auto
  next
    case False
    then have "a \<in> set xs" using Cons.prems(2) by simp
    from Cons.IH [OF x(3) this] show ?thesis by auto
  qed
qed

lemma mem_list_distinct: "mem_list m cur = Some as \<Longrightarrow> distinct as"
proof (induction as arbitrary: cur)
  case Nil
  then show ?case by simp
next
  case (Cons x xs)
  from Cons.prems have x: "cur \<noteq> NULL" "x = cur" "mem_list m (s_next (m cur)) = Some xs"
    by (simp_all add: mem_list_Cons)
  have "x \<notin> set xs"
  proof
    assume "x \<in> set xs"
    from mem_list_suffix [OF x(3) this] obtain bs
      where "mem_list m x = Some bs" "length bs \<le> length xs" by auto
    with Cons.prems x(2) show False by auto
  qed
  with Cons.IH [OF x(3)] show ?case by simp
qed

lemma mem_list_upd_other:
  "mem_list m cur = Some as \<Longrightarrow> h \<notin> set as \<Longrightarrow> mem_list (m(h := v)) cur = Some as"
  by (induction as arbitrary: cur) (auto simp: mem_list_Cons)

lemma mem_list_upd_same_next:
  "mem_list m cur = Some as \<Longrightarrow> s_next v = s_next (m h) \<Longrightarrow>
   mem_list (m(h := v)) cur = Some as"
  by (induction as arbitrary: cur) (auto simp: mem_list_Cons)

lemma mem_list_append:
  assumes "mem_list m cur = Some as" and "as \<noteq> []" and "n \<notin> set as" and "n \<noteq> NULL"
    and "s_next (m n) = NULL"
  shows "mem_list (m(last as := (m (last as))\<lparr>s_next := n\<rparr>)) cur = Some (as @ [n])"
  using assms
proof (induction as arbitrary: cur)
  case Nil
  then show ?case by simp
next
  case (Cons x xs)
  from Cons.prems(1) have x: "cur \<noteq> NULL" "x = cur" "mem_list m (s_next (m cur)) = Some xs"
    by (simp_all add: mem_list_Cons)
  have dist: "x \<notin> set xs" using mem_list_distinct [OF Cons.prems(1)] by simp
  show ?case
  proof (cases "xs = []")
    case True
    then have nx: "s_next (m cur) = NULL" using x(3) by simp
    have "mem_list (m(cur := (m cur)\<lparr>s_next := n\<rparr>)) n = Some [n]"
      using Cons.prems(3,4,5) x(2) by (simp add: mem_list_Cons)
    then show ?thesis using True x Cons.prems(3,4) nx by (simp add: mem_list_Cons)
  next
    case False
    define m' where "m' = m(last xs := (m (last xs))\<lparr>s_next := n\<rparr>)"
    have b: "mem_list m' (s_next (m cur)) = Some (xs @ [n])"
      unfolding m'_def by (rule Cons.IH [OF x(3) False]) (use Cons.prems(3,4,5) in auto)
    have "last xs \<noteq> cur" using dist False x(2) last_in_set by metis
    then have a: "m' cur = m cur" by (simp add: m'_def)
    have step: "mem_list m' cur = Some (x # xs @ [n])"
      using x(1,2) a b by (simp add: mem_list_step)
    have e: "last (x # xs) = last xs" using False by simp
    show ?thesis unfolding e using step unfolding m'_def by (simp only: append_Cons)
  qed
qed

lemma mem_list_butlast:
  assumes "mem_list m cur = Some (as @ [p, h])"
  shows "mem_list (m(p := (m p)\<lparr>s_next := NULL\<rparr>)) cur = Some (as @ [p])"
  using assms
proof (induction as arbitrary: cur)
  case Nil
  then show ?case by (auto simp: mem_list_Cons)
next
  case (Cons x xs)
  from Cons.prems have x: "cur = x" "x \<noteq> NULL" "mem_list m (s_next (m x)) = Some (xs @ [p, h])"
    by (auto simp: mem_list_Cons)
  have "x \<noteq> p" using mem_list_distinct [OF Cons.prems] by auto
  then show ?case using x Cons.IH [OF x(3)] by (simp add: mem_list_Cons)
qed

lemma mem_list_pred:
  "mem_list m cur = Some (bs @ [p, h]) \<Longrightarrow> s_next (m p) = h"
  by (induction bs arbitrary: cur) (auto simp: mem_list_Cons)

lemma get_free_block_from_find:
  "mem_list m cur = Some as \<Longrightarrow>
   get_free_block_from m sz cur =
     Some (case find (\<lambda>h. s_is_free (m h) \<noteq> 0 \<and> sz \<le> s_size (m h)) as of
             None \<Rightarrow> NULL | Some h \<Rightarrow> h)"
proof (induction as arbitrary: cur)
  case Nil
  then show ?case by (simp add: get_free_block_from.simps)
next
  case (Cons x xs)
  from Cons.prems have x: "cur \<noteq> NULL" "x = cur" "mem_list m (s_next (m cur)) = Some xs"
    by (simp_all add: mem_list_Cons)
  show ?case
    using x Cons.IH [OF x(3)] by (subst get_free_block_from.simps) simp
qed

lemma unlink_loop_NULL [simp]: "unlink_loop NULL s = Some s"
  by (simp add: unlink_loop.simps)

lemma unlink_loop_pred:
  assumes "mem_list (hmem s) cur = Some (as @ [p, t])" and "tail s = t"
  shows "unlink_loop cur s =
           Some (s\<lparr>hmem := (hmem s)(p := (hmem s p)\<lparr>s_next := NULL\<rparr>), tail := p\<rparr>)"
  using assms
proof (induction as arbitrary: cur)
  case Nil
  then have c: "cur = p" "p \<noteq> NULL" "s_next (hmem s p) = t"
    by (auto simp: mem_list_Cons)
  show ?case
    using c Nil.prems(2) by (subst unlink_loop.simps) (simp add: Let_def)
next
  case (Cons x xs)
  from Cons.prems(1) have x: "cur = x" "x \<noteq> NULL"
    "mem_list (hmem s) (s_next (hmem s x)) = Some (xs @ [p, t])"
    by (auto simp: mem_list_Cons)
  have d: "distinct (x # xs @ [p, t])"
    using mem_list_distinct [OF Cons.prems(1)] by simp
  have "s_next (hmem s x) = hd (xs @ [p, t])"
    using x(3) by (cases xs) (auto simp: mem_list_Cons)
  then have ne: "s_next (hmem s x) \<noteq> t"
    using d by (cases xs) auto
  show ?case
    using x(1,2) ne Cons.prems(2) Cons.IH [OF x(3) Cons.prems(2)]
    by (subst unlink_loop.simps) (simp add: Let_def fun_upd_def [symmetric])
qed

lemma head_of_list:
  "print_mem_list s = Some as \<Longrightarrow> head s = (if as = [] then NULL else hd as)"
  unfolding print_mem_list_def by (cases as) (auto simp: mem_list_Cons)

lemma print_mem_list_events [simp]:
  "print_mem_list (s\<lparr>events := e\<rparr>) = print_mem_list s"
  by (simp add: print_mem_list_def)

lemma print_mem_list_bytes [simp]: "print_mem_list (s\<lparr>bytes := b\<rparr>) = print_mem_list s"
  by (simp add: print_mem_list_def)

lemma print_mem_list_flag:
  "print_mem_list s = Some as \<Longrightarrow>
   print_mem_list (s\<lparr>hmem := (hmem s)(a := (hmem s a)\<lparr>s_is_free := v\<rparr>)\<rparr>) = Some as"
  unfolding print_mem_list_def by (simp add: mem_list_upd_same_next)

lemma in_dir_iff: "print_mem_list s = Some as \<Longrightarrow> in_dir h s \<longleftrightarrow> h \<in> set as"
  by (simp add: in_dir_def)

lemma in_dir_bytes [simp]: "in_dir h (s\<lparr>bytes := b\<rparr>) = in_dir h s"
  by (simp add: in_dir_def)

lemma get_free_block_fits:
  assumes "print_mem_list s = Some as"
  shows "get_free_block sz (pthread_mutex_lock s) =
           Some (case find (fits sz (hmem s)) as of None \<Rightarrow> NULL | Some h \<Rightarrow> h)"
proof -
  have "fits sz (hmem s) = (\<lambda>h. s_is_free (hmem s h) \<noteq> 0 \<and> sz \<le> s_size (hmem s h))"
    by (rule ext) (simp add: fits_def)
  then show ?thesis
    using get_free_block_from_find [OF assms [unfolded print_mem_list_def], of sz]
    by (simp add: get_free_block_def pthread_mutex_lock_def)
qed

lemma unlink_tail_single:
  assumes "print_mem_list s = Some [h]" and "tail s = h"
  shows "unlink_tail s = Some (s\<lparr>head := NULL, tail := NULL\<rparr>)"
  using assms head_of_list [OF assms(1)] by (simp add: unlink_tail_def)

lemma unlink_tail_more:
  assumes "print_mem_list s = Some (as @ [p, h])" and "tail s = h"
  shows "unlink_tail s =
           Some (s\<lparr>hmem := (hmem s)(p := (hmem s p)\<lparr>s_next := NULL\<rparr>), tail := p\<rparr>)"
proof -
  have d: "distinct (as @ [p, h])"
    using assms(1) unfolding print_mem_list_def by (rule mem_list_distinct)
  have "head s = hd (as @ [p, h])" using head_of_list [OF assms(1)] by simp
  then have "head s \<noteq> h" using d by (cases as) auto
  then show ?thesis
    using assms unlink_loop_pred [of s "head s" as p h]
    by (simp add: unlink_tail_def print_mem_list_def)
qed

lemma carve_list:
  assumes pl: "print_mem_list s = Some as"
    and t: "tail s = (if as = [] then NULL else last as)"
    and n: "brk s \<notin> set as" and z: "brk s \<noteq> NULL" and nx: "s_next v = NULL"
  shows "mem_list (if as = [] then (hmem s)(brk s := v)
                   else (hmem s)(brk s := v, tail s := (hmem s (tail s))\<lparr>s_next := brk s\<rparr>))
           (if as = [] then brk s else head s) = Some (as @ [brk s])"
proof (cases "as = []")
  case True
  then show ?thesis using z nx by (simp add: mem_list_Cons)
next
  case False
  define m where "m = (hmem s)(brk s := v)"
  have 1: "mem_list m (head s) = Some as"
    unfolding m_def using pl n by (simp add: print_mem_list_def mem_list_upd_other)
  have 2: "s_next (m (brk s)) = NULL" by (simp add: m_def nx)
  have 3: "m (last as) = hmem s (tail s)"
    using t n False by (metis fun_upd_other last_in_set m_def)
  have "mem_list (m(last as := (m (last as))\<lparr>s_next := brk s\<rparr>)) (head s) = Some (as @ [brk s])"
    by (rule mem_list_append [OF 1 False n z 2])
  then have "mem_list (m(last as := (hmem s (tail s))\<lparr>s_next := brk s\<rparr>)) (head s) =
      Some (as @ [brk s])"
    unfolding 3 .
  then show ?thesis using False t unfolding m_def by simp
qed

lemma fits_clear: "fits sz (m(h := (m h)\<lparr>s_is_free := 0\<rparr>)) x \<Longrightarrow> fits sz m x"
  by (auto simp: fits_def split: if_splits)

lemma fits_carve:
  assumes "x \<noteq> b"
  shows "fits sz (if e then m(b := v) else m(b := v, t := (m t)\<lparr>s_next := b\<rparr>)) x = fits sz m x"
  using assms by (auto simp: fits_def)


lemma size_carve:
  assumes "x \<noteq> b"
  shows "s_size ((if e then m(b := v) else m(b := v, t := (m t)\<lparr>s_next := b\<rparr>)) x) = s_size (m x)"
  using assms by auto

section \<open>The break\<close>

lemma sbrk_zero: "sbrk 0 s = (brk s, s\<lparr>events := events s @ [Sbrk 0]\<rparr>)"
  by (simp add: sbrk_def)

lemma sbrk_shrink:
  fixes sz :: size_t
  assumes "unat sz + 24 < 2 ^ 63"
    and "unat (brk s) = unat h + 24 + unat sz"
    and "unat (brk_lo s) \<le> unat h"
    and "unat (brk s) \<le> unat (brk_hi s)"
  shows "sbrk (0 - sz - header_size) s =
           (brk s, s\<lparr>events := events s @ [Sbrk (0 - sz - header_size)],
                     brk := brk s + (0 - sz - header_size)\<rparr>)"
proof -
  have "uint (brk s) + sint (0 - sz - header_size) = int (unat h)"
    using assms(2) by (simp only: sint_shrink [OF assms(1)] uint_nat)
  moreover have "uint (brk_lo s) \<le> int (unat h)"
    using assms(3) by (simp only: uint_nat)
  moreover have "int (unat h) \<le> uint (brk_hi s)"
    using assms(2,4) by (simp only: uint_nat)
  ultimately show ?thesis
    using shrink_nonzero [OF assms(1)] by (simp add: sbrk_def Let_def)
qed

lemma sbrk_grow:
  fixes sz :: size_t
  assumes "unat sz + 24 < 2 ^ 63" and "unat (brk_lo s) \<le> unat (brk s)"
  shows "sbrk (header_size + sz) s =
           (if unat (brk s) + 24 + unat sz \<le> unat (brk_hi s)
            then (brk s, s\<lparr>events := events s @ [Sbrk (header_size + sz)],
                            brk := brk s + (header_size + sz)\<rparr>)
            else (- 1, s\<lparr>events := events s @ [Sbrk (header_size + sz)]\<rparr>))"
proof -
  have e: "uint (brk s) + sint (header_size + sz) = int (unat (brk s) + 24 + unat sz)"
    by (simp only: sint_grow [OF assms(1)] uint_nat)
  have lo: "uint (brk_lo s) \<le> int (unat (brk s) + 24 + unat sz)"
    using assms(2) by (simp only: uint_nat)
  have hi: "int (unat (brk s) + 24 + unat sz) \<le> uint (brk_hi s) \<longleftrightarrow>
            unat (brk s) + 24 + unat sz \<le> unat (brk_hi s)"
    by (simp only: uint_nat of_nat_le_iff)
  show ?thesis
    using grow_nonzero [OF assms(1)] lo
    by (simp add: sbrk_def Let_def e hi del: of_nat_add)
qed

lemma bytes_sbrk [simp]: "bytes (snd (sbrk inc s)) = bytes s"
  by (simp add: sbrk_def Let_def)

section \<open>The memory that can be accessed\<close>

lemma le_page_up: "n \<le> page_up n"
proof -
  have "n + (page_size - 1) < ((n + (page_size - 1)) div page_size) * page_size + page_size"
    using div_mult_mod_eq [of "n + (page_size - 1)" page_size]
      mod_less_divisor [of page_size "n + (page_size - 1)"]
    by (simp add: page_size_def)
  then show ?thesis by (simp add: page_up_def page_size_def)
qed

lemma accessible_events [simp]: "accessible (s\<lparr>events := e\<rparr>) a n = accessible s a n"
  by (simp add: accessible_def)

lemma accessible_bytes [simp]: "accessible (s\<lparr>bytes := b\<rparr>) a n = accessible s a n"
  by (simp add: accessible_def)

lemma accessible_hmem [simp]: "accessible (s\<lparr>hmem := m\<rparr>) a n = accessible s a n"
  by (simp add: accessible_def)

lemma accessible_below:
  assumes "unat (brk_lo s) \<le> unat a" and "unat a + n \<le> unat (brk s)"
  shows "accessible s a n"
  using assms le_page_up [of "unat (brk s)"] by (simp add: accessible_def)

section \<open>Well-formed states are kept\<close>

lemma heap_okD:
  assumes "heap_ok s"
  obtains as where "print_mem_list s = Some as"
    and "tail s = (if as = [] then NULL else last as)"
    and "sorted_wrt (\<lambda>a b. blk_end (hmem s) a \<le> unat b) as"
    and "\<And>h. h \<in> set as \<Longrightarrow> unat (brk_lo s) \<le> unat h"
    and "\<And>h. h \<in> set as \<Longrightarrow> blk_end (hmem s) h \<le> unat (brk s)"
    and "0 < unat (brk_lo s)" and "unat (brk_lo s) \<le> unat (brk s)"
    and "unat (brk s) \<le> unat (brk_hi s)" and "unat (brk_hi s) < 2 ^ 63"
  using assms unfolding heap_ok_def by (auto split: option.splits)

lemma heap_okI:
  assumes "print_mem_list s = Some as"
    and "tail s = (if as = [] then NULL else last as)"
    and "sorted_wrt (\<lambda>a b. blk_end (hmem s) a \<le> unat b) as"
    and "\<And>h. h \<in> set as \<Longrightarrow> unat (brk_lo s) \<le> unat h"
    and "\<And>h. h \<in> set as \<Longrightarrow> blk_end (hmem s) h \<le> unat (brk s)"
    and "0 < unat (brk_lo s)" and "unat (brk_lo s) \<le> unat (brk s)"
    and "unat (brk s) \<le> unat (brk_hi s)" and "unat (brk_hi s) < 2 ^ 63"
  shows "heap_ok s"
  using assms unfolding heap_ok_def by simp

lemma heap_ok_events [simp]: "heap_ok (s\<lparr>events := e\<rparr>) = heap_ok s"
  by (simp add: heap_ok_def split: option.splits)

lemma heap_ok_bytes [simp]: "heap_ok (s\<lparr>bytes := b\<rparr>) = heap_ok s"
  by (simp add: heap_ok_def split: option.splits)

lemma heap_ok_flag:
  assumes "heap_ok s"
  shows "heap_ok (s\<lparr>hmem := (hmem s)(a := (hmem s a)\<lparr>s_is_free := v\<rparr>)\<rparr>)"
proof -
  from assms obtain as where pl: "print_mem_list s = Some as" by (auto elim: heap_okD)
  have be: "blk_end ((hmem s)(a := (hmem s a)\<lparr>s_is_free := v\<rparr>)) = blk_end (hmem s)"
    by (rule blk_end_upd_fun) simp
  show ?thesis
    using assms unfolding heap_ok_def by (simp add: print_mem_list_flag [OF pl] pl be)
qed

text \<open>In a well-formed state the block that ends at the break is the last one.\<close>

lemma at_break_is_last:
  assumes srt: "sorted_wrt (\<lambda>a b. blk_end m a \<le> unat b) as"
    and bnd: "\<And>h. h \<in> set as \<Longrightarrow> blk_end m h \<le> e"
    and h: "h \<in> set as" and e: "blk_end m h = e"
  shows "as \<noteq> [] \<and> last as = h"
proof -
  from h obtain xs ys where as: "as = xs @ h # ys" by (auto dest: split_list)
  have "ys = []"
  proof (rule ccontr)
    assume "ys \<noteq> []"
    then obtain y where y: "y \<in> set ys" by (cases ys) auto
    then have "blk_end m h \<le> unat y" using srt as by (auto simp: sorted_wrt_append)
    moreover have "blk_end m y \<le> e" using bnd y as by simp
    ultimately show False using blk_end_gt [of y m] e by simp
  qed
  then show ?thesis using as by simp
qed

lemma heap_ok_brk:
  assumes "heap_ok s" and "print_mem_list s = Some as"
  shows "brk s \<notin> set as" and "brk s \<noteq> NULL" and "brk s \<noteq> - 1"
    and "brk s + header_size \<noteq> NULL" and "unat (brk s) < 2 ^ 63"
proof -
  from assms obtain
    bnd: "\<And>h. h \<in> set as \<Longrightarrow> blk_end (hmem s) h \<le> unat (brk s)"
    and lo: "0 < unat (brk_lo s)" "unat (brk_lo s) \<le> unat (brk s)"
    and hi: "unat (brk s) \<le> unat (brk_hi s)" "unat (brk_hi s) < 2 ^ 63"
    by (auto elim!: heap_okD)
  show "brk s \<notin> set as"
    using bnd [of "brk s"] blk_end_gt [of "brk s" "hmem s"] by auto
  show "brk s \<noteq> NULL" using lo by (metis not_less0 le_0_eq unat_0)
  show b: "unat (brk s) < 2 ^ 63" using hi by simp
  show "brk s \<noteq> - 1"
  proof
    assume "brk s = - 1"
    then have "unat (brk s) = unat (- 1 :: 64 word)" by simp
    then show False using b by (simp add: unsigned_minus_1_eq_mask mask_eq_exp_minus_1)
  qed
  have "unat (brk s + header_size) = unat (brk s) + 24"
    using b by (simp add: header_size_def unat_word_ariths)
  then show "brk s + header_size \<noteq> NULL" by (metis add_is_0 unat_0 zero_neq_numeral)
qed

lemma shrink_facts:
  assumes ok: "heap_ok s" and pl: "print_mem_list s = Some as" and h: "h \<in> set as"
    and eq: "h + header_size + s_size (hmem s h) = brk s"
  shows "as \<noteq> []" and "last as = h" and "tail s = h"
    and "unat (brk s) = unat h + 24 + unat (s_size (hmem s h))"
    and "unat (s_size (hmem s h)) + 24 < 2 ^ 63"
    and "h + header_size \<noteq> NULL"
    and "unat (brk_lo s) \<le> unat h" and "unat (brk s) \<le> unat (brk_hi s)"
proof -
  from ok pl obtain
    tl: "tail s = (if as = [] then NULL else last as)"
    and srt: "sorted_wrt (\<lambda>a b. blk_end (hmem s) a \<le> unat b) as"
    and lo: "\<And>h. h \<in> set as \<Longrightarrow> unat (brk_lo s) \<le> unat h"
    and bnd: "\<And>h. h \<in> set as \<Longrightarrow> blk_end (hmem s) h \<le> unat (brk s)"
    and hi: "unat (brk s) \<le> unat (brk_hi s)" "unat (brk_hi s) < 2 ^ 63"
    by (auto elim!: heap_okD)
  have b63: "unat (brk s) < 2 ^ 63" using hi by simp
  note ar = blk_arith [OF bnd [OF h] b63]
  have e: "blk_end (hmem s) h = unat (brk s)" using ar(2) eq by simp
  from at_break_is_last [OF srt bnd h e] show "as \<noteq> []" and l: "last as = h" by simp_all
  then show "tail s = h" using tl by simp
  show "unat (brk s) = unat h + 24 + unat (s_size (hmem s h))"
    using e by (simp add: blk_end_def header_size_def)
  show "unat (s_size (hmem s h)) + 24 < 2 ^ 63" by (rule ar(3))
  show "h + header_size \<noteq> NULL" using ar(1) by (metis add_is_0 unat_0 zero_neq_numeral)
  show "unat (brk_lo s) \<le> unat h" by (rule lo [OF h])
  show "unat (brk s) \<le> unat (brk_hi s)" by (rule hi(1))
qed

section \<open>What \<open>free\<close> does\<close>

lemma free_mark:
  assumes "block \<noteq> NULL"
    and "block + s_size (hmem s (block - header_size)) \<noteq> brk s"
  shows "free block s =
     Some (s\<lparr>hmem := (hmem s)(block - header_size :=
                        (hmem s (block - header_size))\<lparr>s_is_free := 1\<rparr>),
             events := events s @ [Lock, Sbrk 0, Unlock]\<rparr>)"
  using assms
  by (simp add: free_def sbrk_def pthread_mutex_lock_def pthread_mutex_unlock_def Let_def)

lemma free_shrink_path:
  assumes "block \<noteq> NULL"
    and "block + s_size (hmem s (block - header_size)) = brk s"
    and "unlink_tail (s\<lparr>events := events s @ [Lock, Sbrk 0]\<rparr>) = Some s3"
  shows "free block s =
           Some (pthread_mutex_unlock
                  (snd (sbrk (0 - s_size (hmem s3 (block - header_size)) - header_size) s3)))"
  using assms
  by (simp add: free_def sbrk_zero pthread_mutex_lock_def Let_def split: prod.splits)

lemma free_shrink_single:
  assumes ok: "heap_ok s" and pl: "print_mem_list s = Some [h]"
    and eq: "h + header_size + s_size (hmem s h) = brk s"
  shows "free (h + header_size) s =
           Some (s\<lparr>head := NULL, tail := NULL, brk := h,
                   events := events s @
                     [Lock, Sbrk 0, Sbrk (0 - s_size (hmem s h) - header_size), Unlock]\<rparr>)"
proof -
  note f = shrink_facts [OF ok pl _ eq, simplified]
  define s2 where "s2 = s\<lparr>events := events s @ [Lock, Sbrk 0]\<rparr>"
  define s3 where "s3 = s2\<lparr>head := NULL, tail := NULL\<rparr>"
  have u: "unlink_tail s2 = Some s3"
    unfolding s3_def by (rule unlink_tail_single [of _ h]) (simp_all add: s2_def pl f)
  have b: "brk s3 + (0 - s_size (hmem s h) - header_size) = h"
    using eq [symmetric] by (simp add: s3_def s2_def)
  have "sbrk (0 - s_size (hmem s h) - header_size) s3 =
      (brk s3, s3\<lparr>events := events s3 @ [Sbrk (0 - s_size (hmem s h) - header_size)],
                   brk := brk s3 + (0 - s_size (hmem s h) - header_size)\<rparr>)"
    by (rule sbrk_shrink [where h = h]) (use f in \<open>simp_all add: s3_def s2_def\<close>)
  then have sb: "sbrk (0 - s_size (hmem s h) - header_size) s3 =
      (brk s3, s3\<lparr>events := events s3 @ [Sbrk (0 - s_size (hmem s h) - header_size)],
                   brk := h\<rparr>)"
    by (simp only: b)
  have "free (h + header_size) s =
          Some (pthread_mutex_unlock
                  (snd (sbrk (0 - s_size (hmem s3 (h + header_size - header_size)) - header_size) s3)))"
    by (rule free_shrink_path) (simp_all add: f eq u [unfolded s2_def])
  also have "hmem s3 (h + header_size - header_size) = hmem s h"
    by (simp add: s3_def s2_def)
  finally have "free (h + header_size) s =
      Some (pthread_mutex_unlock
             (s3\<lparr>events := events s3 @ [Sbrk (0 - s_size (hmem s h) - header_size)],
                  brk := h\<rparr>))"
    by (simp only: sb snd_conv)
  then show ?thesis
    by (simp add: pthread_mutex_unlock_def s3_def s2_def)
qed

lemma free_shrink_more:
  assumes ok: "heap_ok s" and pl: "print_mem_list s = Some (bs @ [p, h])"
    and eq: "h + header_size + s_size (hmem s h) = brk s"
  shows "free (h + header_size) s =
           Some (s\<lparr>hmem := (hmem s)(p := (hmem s p)\<lparr>s_next := NULL\<rparr>), tail := p, brk := h,
                   events := events s @
                     [Lock, Sbrk 0, Sbrk (0 - s_size (hmem s h) - header_size), Unlock]\<rparr>)"
proof -
  note f = shrink_facts [OF ok pl _ eq, simplified]
  have ph: "p \<noteq> h"
    using mem_list_distinct [OF pl [unfolded print_mem_list_def]] by simp
  define s2 where "s2 = s\<lparr>events := events s @ [Lock, Sbrk 0]\<rparr>"
  define s3 where "s3 = s2\<lparr>hmem := (hmem s2)(p := (hmem s2 p)\<lparr>s_next := NULL\<rparr>), tail := p\<rparr>"
  have u: "unlink_tail s2 = Some s3"
    unfolding s3_def by (rule unlink_tail_more [of _ bs]) (simp_all add: s2_def pl f)
  have sz: "s_size (hmem s3 h) = s_size (hmem s h)"
    using ph by (simp add: s3_def s2_def)
  have b: "brk s3 + (0 - s_size (hmem s h) - header_size) = h"
    using eq [symmetric] by (simp add: s3_def s2_def)
  have "sbrk (0 - s_size (hmem s h) - header_size) s3 =
      (brk s3, s3\<lparr>events := events s3 @ [Sbrk (0 - s_size (hmem s h) - header_size)],
                   brk := brk s3 + (0 - s_size (hmem s h) - header_size)\<rparr>)"
    by (rule sbrk_shrink [where h = h]) (use f in \<open>simp_all add: s3_def s2_def\<close>)
  then have sb: "sbrk (0 - s_size (hmem s h) - header_size) s3 =
      (brk s3, s3\<lparr>events := events s3 @ [Sbrk (0 - s_size (hmem s h) - header_size)],
                   brk := h\<rparr>)"
    by (simp only: b)
  have "free (h + header_size) s =
          Some (pthread_mutex_unlock
                  (snd (sbrk (0 - s_size (hmem s3 (h + header_size - header_size)) - header_size) s3)))"
    by (rule free_shrink_path) (simp_all add: f eq u [unfolded s2_def])
  also have "s_size (hmem s3 (h + header_size - header_size)) = s_size (hmem s h)"
    using sz by simp
  finally have "free (h + header_size) s =
      Some (pthread_mutex_unlock
             (s3\<lparr>events := events s3 @ [Sbrk (0 - s_size (hmem s h) - header_size)],
                  brk := h\<rparr>))"
    by (simp only: sb snd_conv)
  then show ?thesis
    by (simp add: pthread_mutex_unlock_def s3_def s2_def)
qed

lemma free_shrink:
  assumes ok: "heap_ok s" and pl: "print_mem_list s = Some as" and h: "h \<in> set as"
    and eq: "h + header_size + s_size (hmem s h) = brk s"
  shows "\<exists>s'. free (h + header_size) s = Some s' \<and> as = butlast as @ [h] \<and>
           print_mem_list s' = Some (butlast as) \<and> heap_ok s' \<and>
           hmem s' = (if butlast as = [] then hmem s
                      else (hmem s)(last (butlast as) :=
                              (hmem s (last (butlast as)))\<lparr>s_next := NULL\<rparr>)) \<and>
           head s' = (if butlast as = [] then NULL else head s) \<and>
           tail s' = (if butlast as = [] then NULL else last (butlast as)) \<and>
           brk s' = h \<and> bytes s' = bytes s \<and> brk_lo s' = brk_lo s \<and> brk_hi s' = brk_hi s \<and>
           events s' = events s @
             [Lock, Sbrk 0, Sbrk (0 - s_size (hmem s h) - header_size), Unlock]"
proof -
  note f = shrink_facts [OF ok pl h eq]
  from ok pl obtain
    srt: "sorted_wrt (\<lambda>a b. blk_end (hmem s) a \<le> unat b) as"
    and lo: "\<And>h. h \<in> set as \<Longrightarrow> unat (brk_lo s) \<le> unat h"
    and lo0: "0 < unat (brk_lo s)"
    and hi: "unat (brk s) \<le> unat (brk_hi s)" "unat (brk_hi s) < 2 ^ 63"
    by (auto elim!: heap_okD)
  from f(1,2) have as: "as = butlast as @ [h]" by (metis append_butlast_last_id)
  show ?thesis
  proof (cases "butlast as = []")
    case True
    with as have as1: "as = [h]" by simp
    have "heap_ok (s\<lparr>head := NULL, tail := NULL, brk := h,
                   events := events s @
                     [Lock, Sbrk 0, Sbrk (0 - s_size (hmem s h) - header_size), Unlock]\<rparr>)"
      by (rule heap_okI [where as = "[]"])
         (use lo0 hi f(4,7) in \<open>simp_all add: print_mem_list_def\<close>)
    then show ?thesis
      using free_shrink_single [OF ok pl [unfolded as1] eq] as1
      by (simp add: print_mem_list_def)
  next
    case False
    then obtain bs p where bl: "butlast as = bs @ [p]" by (metis rev_exhaust)
    with as have as2: "as = bs @ [p, h]" by simp
    define s' where "s' = s\<lparr>hmem := (hmem s)(p := (hmem s p)\<lparr>s_next := NULL\<rparr>), tail := p,
        brk := h, events := events s @
          [Lock, Sbrk 0, Sbrk (0 - s_size (hmem s h) - header_size), Unlock]\<rparr>"
    have fr: "free (h + header_size) s = Some s'"
      unfolding s'_def by (rule free_shrink_more [OF ok pl [unfolded as2] eq])
    have pl': "print_mem_list s' = Some (bs @ [p])"
      using mem_list_butlast [OF pl [unfolded as2 print_mem_list_def]]
      by (simp add: print_mem_list_def s'_def)
    have be: "blk_end (hmem s') = blk_end (hmem s)"
      unfolding s'_def by (simp add: blk_end_upd_fun)
    have srt': "sorted_wrt (\<lambda>a b. blk_end (hmem s) a \<le> unat b) (bs @ [p])"
      and bnd': "\<And>x. x \<in> set (bs @ [p]) \<Longrightarrow> blk_end (hmem s) x \<le> unat h"
      using srt unfolding as2 by (auto simp: sorted_wrt_append)
    have ok': "heap_ok s'"
    proof (rule heap_okI [OF pl'])
      show "tail s' = (if bs @ [p] = [] then NULL else last (bs @ [p]))" by (simp add: s'_def)
      show "sorted_wrt (\<lambda>a b. blk_end (hmem s') a \<le> unat b) (bs @ [p])"
        unfolding be by (rule srt')
      show "unat (brk_lo s') \<le> unat x" if "x \<in> set (bs @ [p])" for x
        using lo [of x] that by (auto simp: as2 s'_def)
      show "blk_end (hmem s') x \<le> unat (brk s')" if "x \<in> set (bs @ [p])" for x
        unfolding be using bnd' [OF that] by (simp add: s'_def)
      show "0 < unat (brk_lo s')" using lo0 by (simp add: s'_def)
      show "unat (brk_lo s') \<le> unat (brk s')" using f(7) by (simp add: s'_def)
      show "unat (brk s') \<le> unat (brk_hi s')" using f(4,8) by (simp add: s'_def)
      show "unat (brk_hi s') < 2 ^ 63" using hi(2) by (simp add: s'_def)
    qed
    show ?thesis
      using fr pl' ok' as bl by (simp add: s'_def)
  qed
qed

lemma free_mark_ok:
  assumes "heap_ok s" and "block \<noteq> NULL"
    and "block + s_size (hmem s (block - header_size)) \<noteq> brk s"
  shows "\<exists>s'. free block s = Some s' \<and> heap_ok s' \<and> print_mem_list s' = print_mem_list s"
proof -
  from assms(1) obtain as where pl: "print_mem_list s = Some as" by (auto elim: heap_okD)
  show ?thesis
    using heap_ok_flag [OF assms(1)] print_mem_list_flag [OF pl]
    by (simp add: free_mark [OF assms(2,3)] pl)
qed

lemma free_total:
  assumes pl: "print_mem_list s = Some as"
    and tl: "tail s = (if as = [] then NULL else last as)"
  shows "\<exists>s'. free block s = Some s' \<and> bytes s' = bytes s"
proof (cases "block = NULL \<or> block + s_size (hmem s (block - header_size)) \<noteq> brk s")
  case True
  then show ?thesis
  proof
    assume "block = NULL"
    then show ?thesis by (simp add: free_def)
  next
    assume ne: "block + s_size (hmem s (block - header_size)) \<noteq> brk s"
    show ?thesis
    proof (cases "block = NULL")
      case True
      then show ?thesis by (simp add: free_def)
    next
      case False
      then show ?thesis by (simp add: free_mark [OF False ne])
    qed
  qed
next
  case False
  then have nz: "block \<noteq> NULL"
    and eq: "block + s_size (hmem s (block - header_size)) = brk s" by simp_all
  define s2 where "s2 = s\<lparr>events := events s @ [Lock, Sbrk 0]\<rparr>"
  have pl2: "print_mem_list s2 = Some as" and tl2: "tail s2 = tail s"
    using pl by (simp_all add: s2_def)
  have "\<exists>s3. unlink_tail s2 = Some s3 \<and> bytes s3 = bytes s"
  proof (cases as rule: rev_cases)
    case Nil
    then have "head s2 = tail s2" using head_of_list [OF pl2] tl tl2 by simp
    then show ?thesis by (simp add: unlink_tail_def s2_def)
  next
    case (snoc bs h)
    note outer = this
    show ?thesis
    proof (cases bs rule: rev_cases)
      case Nil
      then show ?thesis
        using unlink_tail_single [of s2 h] pl2 tl tl2 outer by (simp add: s2_def)
    next
      case (snoc cs p)
      then show ?thesis
        using unlink_tail_more [of s2 cs p h] pl2 tl tl2 outer by (simp add: s2_def)
    qed
  qed
  then obtain s3 where u: "unlink_tail s2 = Some s3" and b3: "bytes s3 = bytes s" by blast
  show ?thesis
    using free_shrink_path [OF nz eq u [unfolded s2_def]] b3
    by (simp add: pthread_mutex_unlock_def)
qed

lemma free_releases:
  assumes ok: "heap_ok s" and pl: "print_mem_list s = Some as" and h: "h \<in> set as"
  shows "\<exists>s' as'. free (h + header_size) s = Some s' \<and> heap_ok s' \<and>
           print_mem_list s' = Some as' \<and> bytes s' = bytes s \<and>
           (h \<notin> set as' \<or> s_is_free (hmem s' h) = 1)"
proof (cases "h + header_size + s_size (hmem s h) = brk s")
  case True
  from free_shrink [OF ok pl h True] obtain s' where
    fr: "free (h + header_size) s = Some s'" and as: "as = butlast as @ [h]"
    and pl': "print_mem_list s' = Some (butlast as)" and ok': "heap_ok s'"
    and bt: "bytes s' = bytes s"
    by blast
  have "distinct as" using pl unfolding print_mem_list_def by (rule mem_list_distinct)
  then have "h \<notin> set (butlast as)" using as by (metis distinct_append disjoint_iff list.set_intros(1))
  then show ?thesis using fr pl' ok' bt by blast
next
  case False
  from ok pl have bnd: "\<And>h. h \<in> set as \<Longrightarrow> blk_end (hmem s) h \<le> unat (brk s)"
    by (auto elim!: heap_okD)
  note hb = heap_ok_brk [OF ok pl]
  note ar = blk_arith [OF bnd [OF h] hb(5)]
  have nz: "h + header_size \<noteq> NULL" using ar(1) by (metis add_is_0 unat_0 zero_neq_numeral)
  have ne: "h + header_size + s_size (hmem s (h + header_size - header_size)) \<noteq> brk s"
    using False by simp
  from free_mark_ok [OF ok nz ne] obtain s' where
    "free (h + header_size) s = Some s'" "heap_ok s'" "print_mem_list s' = print_mem_list s"
    by blast
  then show ?thesis using free_mark [OF nz ne] pl by auto
qed


section \<open>What \<open>malloc\<close> does\<close>

lemma malloc_zero: "malloc 0 s = Some (NULL, s)"
  by (simp add: malloc_def)

lemma malloc_reuse:
  assumes pl: "print_mem_list s = Some as" and sz: "sz \<noteq> 0"
    and f: "find (fits sz (hmem s)) as = Some h"
  shows "malloc sz s =
           Some (h + header_size,
                 s\<lparr>hmem := (hmem s)(h := (hmem s h)\<lparr>s_is_free := 0\<rparr>),
                   events := events s @ [Lock, Unlock]\<rparr>)"
proof -
  have "h \<in> set as" using find_in_list [OF f] by simp
  then have "h \<noteq> NULL"
    using mem_list_nonnull [OF pl [unfolded print_mem_list_def]] by auto
  then show ?thesis
    using sz f
    by (simp add: malloc_def get_free_block_fits [OF pl])
       (simp add: pthread_mutex_lock_def pthread_mutex_unlock_def)
qed

lemma malloc_sbrk_fail:
  assumes pl: "print_mem_list s = Some as" and sz: "sz \<noteq> 0"
    and f: "find (fits sz (hmem s)) as = None"
    and sb: "fst (sbrk (header_size + sz) (pthread_mutex_lock s)) = - 1"
    and b: "brk s \<noteq> - 1"
  shows "malloc sz s =
           Some (NULL, s\<lparr>events := events s @ [Lock, Sbrk (header_size + sz), Unlock]\<rparr>)"
proof -
  have "sbrk (header_size + sz) (pthread_mutex_lock s) =
      (- 1, s\<lparr>events := events s @ [Lock, Sbrk (header_size + sz)]\<rparr>)"
    using sb b by (auto simp: sbrk_def pthread_mutex_lock_def Let_def split: if_splits)
  then show ?thesis
    using sz f
    by (simp add: malloc_def get_free_block_fits [OF pl] Let_def)
       (simp add: pthread_mutex_unlock_def)
qed

lemma malloc_sbrk_carve:
  assumes pl: "print_mem_list s = Some as" and sz: "sz \<noteq> 0"
    and f: "find (fits sz (hmem s)) as = None"
    and sb: "fst (sbrk (header_size + sz) (pthread_mutex_lock s)) \<noteq> - 1"
    and acc: "accessible (s\<lparr>brk := brk s + (header_size + sz)\<rparr>) (brk s) (unat header_size)"
    and t: "tail s = (if as = [] then NULL else last as)" and n: "brk s \<notin> set as"
  shows "malloc sz s =
           Some (brk s + header_size,
                 s\<lparr>hmem := (if as = []
                             then (hmem s)(brk s := \<lparr>s_size = sz, s_is_free = 0, s_next = NULL\<rparr>)
                             else (hmem s)(brk s := \<lparr>s_size = sz, s_is_free = 0, s_next = NULL\<rparr>,
                                           tail s := (hmem s (tail s))\<lparr>s_next := brk s\<rparr>)),
                   head := (if as = [] then brk s else head s),
                   tail := brk s,
                   brk := brk s + (header_size + sz),
                   events := events s @ [Lock, Sbrk (header_size + sz), Unlock]\<rparr>)"
proof -
  have sbr: "sbrk (header_size + sz) (pthread_mutex_lock s) =
      (brk s, s\<lparr>events := events s @ [Lock, Sbrk (header_size + sz)],
                 brk := brk s + (header_size + sz)\<rparr>)"
    using sb by (auto simp: sbrk_def pthread_mutex_lock_def Let_def split: if_splits)
  have b1: "brk s \<noteq> - 1" using sb sbr by simp
  have nn: "NULL \<notin> set as" using mem_list_nonnull [OF pl [unfolded print_mem_list_def]] .
  have hd: "head s = NULL \<longleftrightarrow> as = []"
    using head_of_list [OF pl] nn by (cases as) auto
  have tl: "tail s = NULL \<longleftrightarrow> as = []"
    using t nn by (metis last_in_set)
  have tb: "as \<noteq> [] \<Longrightarrow> tail s \<noteq> brk s"
    using t n by (metis last_in_set)
  have acc': "accessible (s\<lparr>events := events s @ [Lock, Sbrk (header_size + sz)],
                            brk := brk s + (header_size + sz)\<rparr>) (brk s) (unat header_size)"
    using acc by (simp add: accessible_def)
  show ?thesis
  proof (cases "as = []")
    case True
    then show ?thesis
      using sz f b1 hd tl acc'
      by (simp add: malloc_def get_free_block_fits [OF pl] sbr Let_def)
         (simp add: pthread_mutex_unlock_def)
  next
    case False
    then show ?thesis
      using sz f b1 hd tl tb [OF False] acc'
      by (simp add: malloc_def get_free_block_fits [OF pl] sbr Let_def)
         (simp add: pthread_mutex_unlock_def)
  qed
qed

lemma malloc_sbrk_fault:
  assumes pl: "print_mem_list s = Some as" and sz: "sz \<noteq> 0"
    and f: "find (fits sz (hmem s)) as = None"
    and sb: "fst (sbrk (header_size + sz) (pthread_mutex_lock s)) \<noteq> - 1"
    and acc: "\<not> accessible (s\<lparr>brk := brk s + (header_size + sz)\<rparr>) (brk s) (unat header_size)"
  shows "malloc sz s = None"
proof -
  have sbr: "sbrk (header_size + sz) (pthread_mutex_lock s) =
      (brk s, s\<lparr>events := events s @ [Lock, Sbrk (header_size + sz)],
                 brk := brk s + (header_size + sz)\<rparr>)"
    using sb by (auto simp: sbrk_def pthread_mutex_lock_def Let_def split: if_splits)
  have b1: "brk s \<noteq> - 1" using sb sbr by simp
  have acc': "\<not> accessible (s\<lparr>events := events s @ [Lock, Sbrk (header_size + sz)],
                            brk := brk s + (header_size + sz)\<rparr>) (brk s) (unat header_size)"
    using acc by (simp add: accessible_def)
  show ?thesis
    using sz f b1 acc'
    by (simp add: malloc_def get_free_block_fits [OF pl] sbr Let_def)
qed

lemma malloc_reuse_ok:
  assumes ok: "heap_ok s" and pl: "print_mem_list s = Some as"
  shows "heap_ok (s\<lparr>hmem := (hmem s)(h := (hmem s h)\<lparr>s_is_free := 0\<rparr>),
                    events := events s @ [Lock, Unlock]\<rparr>)"
    and "print_mem_list (s\<lparr>hmem := (hmem s)(h := (hmem s h)\<lparr>s_is_free := 0\<rparr>),
                    events := events s @ [Lock, Unlock]\<rparr>) = Some as"
  using heap_ok_flag [OF ok, of h 0] print_mem_list_flag [OF pl, of h 0]
  by simp_all

lemma carve_ok:
  fixes sz :: size_t
  assumes ok: "heap_ok s" and pl: "print_mem_list s = Some as"
    and b63: "unat sz + 24 < 2 ^ 63"
    and room: "unat (brk s) + 24 + unat sz \<le> unat (brk_hi s)"
    and s': "s' = s\<lparr>hmem := (if as = []
                             then (hmem s)(brk s := \<lparr>s_size = sz, s_is_free = 0, s_next = NULL\<rparr>)
                             else (hmem s)(brk s := \<lparr>s_size = sz, s_is_free = 0, s_next = NULL\<rparr>,
                                           tail s := (hmem s (tail s))\<lparr>s_next := brk s\<rparr>)),
                   head := (if as = [] then brk s else head s),
                   tail := brk s,
                   brk := brk s + (header_size + sz),
                   events := e\<rparr>"
  shows "heap_ok s'" and "print_mem_list s' = Some (as @ [brk s])"
proof -
  from ok pl obtain
    tl: "tail s = (if as = [] then NULL else last as)"
    and srt: "sorted_wrt (\<lambda>a b. blk_end (hmem s) a \<le> unat b) as"
    and lo: "\<And>h. h \<in> set as \<Longrightarrow> unat (brk_lo s) \<le> unat h"
    and bnd: "\<And>h. h \<in> set as \<Longrightarrow> blk_end (hmem s) h \<le> unat (brk s)"
    and lo0: "0 < unat (brk_lo s)" "unat (brk_lo s) \<le> unat (brk s)"
    and hi: "unat (brk s) \<le> unat (brk_hi s)" "unat (brk_hi s) < 2 ^ 63"
    by (auto elim!: heap_okD)
  note hb = heap_ok_brk [OF ok pl]
  show pl': "print_mem_list s' = Some (as @ [brk s])"
    using carve_list [OF pl tl hb(1,2), of "\<lparr>s_size = sz, s_is_free = 0, s_next = NULL\<rparr>"]
    by (simp add: print_mem_list_def s')
  have tin: "as \<noteq> [] \<Longrightarrow> tail s \<in> set as" using tl by simp
  have old: "blk_end (hmem s') x = blk_end (hmem s) x" if "x \<in> set as" for x
  proof -
    have "x \<noteq> brk s" using that hb(1) by auto
    then show ?thesis by (simp add: s' blk_end_def)
  qed
  have nb: "unat (brk s') = unat (brk s) + 24 + unat sz"
    using room hi by (simp add: s' header_size_def unat_word_ariths)
  have new: "blk_end (hmem s') (brk s) = unat (brk s')"
    using tin hb(1) by (auto simp: nb) (auto simp: s' blk_end_def header_size_def)
  show "heap_ok s'"
  proof (rule heap_okI [OF pl'])
    show "tail s' = (if as @ [brk s] = [] then NULL else last (as @ [brk s]))" by (simp add: s')
    have "sorted_wrt (\<lambda>a b. blk_end (hmem s') a \<le> unat b) as"
      using srt by (rule sorted_wrt_mono_rel [rotated]) (simp add: old)
    then show "sorted_wrt (\<lambda>a b. blk_end (hmem s') a \<le> unat b) (as @ [brk s])"
      using bnd by (simp add: sorted_wrt_append old)
    show "unat (brk_lo s') \<le> unat x" if "x \<in> set (as @ [brk s])" for x
      using that lo [of x] lo0 by (auto simp: s')
    show "blk_end (hmem s') x \<le> unat (brk s')" if "x \<in> set (as @ [brk s])" for x
      using that bnd [of x] old [of x] new nb by auto
    show "0 < unat (brk_lo s')" using lo0 by (simp add: s')
    show "unat (brk_lo s') \<le> unat (brk s')" using lo0 nb by (simp add: s')
    show "unat (brk s') \<le> unat (brk_hi s')" using room nb by (simp add: s')
    show "unat (brk_hi s') < 2 ^ 63" using hi by (simp add: s')
  qed
qed

lemma new_header_accessible:
  fixes sz :: size_t
  assumes ok: "heap_ok s" and b63: "unat sz + 24 < 2 ^ 63"
    and room: "unat (brk s) + 24 + unat sz \<le> unat (brk_hi s)"
  shows "accessible (s\<lparr>brk := brk s + (header_size + sz)\<rparr>) (brk s) (unat header_size)"
proof -
  from ok have lo: "unat (brk_lo s) \<le> unat (brk s)" and hi: "unat (brk_hi s) < 2 ^ 63"
    by (auto elim!: heap_okD)
  have "unat (brk s + (header_size + sz)) = unat (brk s) + 24 + unat sz"
    using room hi by (simp add: header_size_def unat_word_ariths)
  then show ?thesis
    using lo by (intro accessible_below) (simp_all add: header_size_def)
qed

lemma malloc_cases:
  fixes sz :: size_t
  assumes ok: "heap_ok s" and pl: "print_mem_list s = Some as" and sz: "sz \<noteq> 0"
    and b63: "unat sz + 24 < 2 ^ 63"
  obtains (reuse) h where "find (fits sz (hmem s)) as = Some h"
      and "malloc sz s = Some (h + header_size,
             s\<lparr>hmem := (hmem s)(h := (hmem s h)\<lparr>s_is_free := 0\<rparr>),
               events := events s @ [Lock, Unlock]\<rparr>)"
  | (carve) "find (fits sz (hmem s)) as = None"
      and "unat (brk s) + 24 + unat sz \<le> unat (brk_hi s)"
      and "malloc sz s = Some (brk s + header_size,
             s\<lparr>hmem := (if as = []
                         then (hmem s)(brk s := \<lparr>s_size = sz, s_is_free = 0, s_next = NULL\<rparr>)
                         else (hmem s)(brk s := \<lparr>s_size = sz, s_is_free = 0, s_next = NULL\<rparr>,
                                       tail s := (hmem s (tail s))\<lparr>s_next := brk s\<rparr>)),
               head := (if as = [] then brk s else head s),
               tail := brk s,
               brk := brk s + (header_size + sz),
               events := events s @ [Lock, Sbrk (header_size + sz), Unlock]\<rparr>)"
  | (fail) "find (fits sz (hmem s)) as = None"
      and "malloc sz s =
             Some (NULL, s\<lparr>events := events s @ [Lock, Sbrk (header_size + sz), Unlock]\<rparr>)"
proof (cases "find (fits sz (hmem s)) as")
  case (Some h)
  then show ?thesis using reuse malloc_reuse [OF pl sz Some] by blast
next
  case None
  from ok pl have tl: "tail s = (if as = [] then NULL else last as)"
    and lo: "unat (brk_lo s) \<le> unat (brk s)"
    by (auto elim!: heap_okD)
  note hb = heap_ok_brk [OF ok pl]
  have g: "sbrk (header_size + sz) (pthread_mutex_lock s) =
           (if unat (brk s) + 24 + unat sz \<le> unat (brk_hi s)
            then (brk s, (pthread_mutex_lock s)\<lparr>events := events (pthread_mutex_lock s) @ [Sbrk (header_size + sz)],
                            brk := brk s + (header_size + sz)\<rparr>)
            else (- 1, (pthread_mutex_lock s)\<lparr>events := events (pthread_mutex_lock s) @ [Sbrk (header_size + sz)]\<rparr>))"
    using sbrk_grow [OF b63, of "pthread_mutex_lock s"] lo
    by (simp add: pthread_mutex_lock_def)
  show ?thesis
  proof (cases "unat (brk s) + 24 + unat sz \<le> unat (brk_hi s)")
    case True
    then have sb: "fst (sbrk (header_size + sz) (pthread_mutex_lock s)) \<noteq> - 1"
      using hb(3) by (simp add: g)
    from carve [OF None True
        malloc_sbrk_carve [OF pl sz None sb new_header_accessible [OF ok b63 True] tl hb(1)]]
    show ?thesis .
  next
    case False
    then have "fst (sbrk (header_size + sz) (pthread_mutex_lock s)) = - 1"
      by (simp add: g)
    from fail [OF None malloc_sbrk_fail [OF pl sz None this hb(3)]]
    show ?thesis .
  qed
qed

lemma malloc_heap_ok:
  fixes sz :: size_t
  assumes ok: "heap_ok s" and b63: "unat sz + 24 < 2 ^ 63"
  shows "\<exists>p s'. malloc sz s = Some (p, s') \<and> heap_ok s'"
proof (cases "sz = 0")
  case True
  then show ?thesis using ok by (simp add: malloc_zero)
next
  case False
  from ok obtain as where pl: "print_mem_list s = Some as" by (auto elim: heap_okD)
  from ok pl False b63 show ?thesis
  proof (cases rule: malloc_cases)
    case (reuse h)
    then show ?thesis using malloc_reuse_ok(1) [OF ok pl, of h] by simp
  next
    case carve
    then show ?thesis using carve_ok(1) [OF ok pl b63 carve(2) refl] by simp
  next
    case fail
    then show ?thesis using ok by simp
  qed
qed

text \<open>What a successful \<open>malloc\<close> leaves: the block it returns is the first that would fit.\<close>

lemma malloc_position:
  fixes sz :: size_t
  assumes ok: "heap_ok s" and sz: "sz \<noteq> 0" and b63: "unat sz + 24 < 2 ^ 63"
    and m: "malloc sz s = Some (a, s1)" and a: "a \<noteq> NULL"
  shows "\<exists>pre post. heap_ok s1 \<and> print_mem_list s1 = Some (pre @ (a - header_size) # post) \<and>
           (\<forall>x \<in> set pre. \<not> fits sz (hmem s1) x) \<and>
           sz \<le> s_size (hmem s1 (a - header_size)) \<and>
           s_is_free (hmem s1 (a - header_size)) = 0"
proof -
  from ok obtain as where pl: "print_mem_list s = Some as" by (auto elim: heap_okD)
  from ok pl sz b63 show ?thesis
  proof (cases rule: malloc_cases)
    case (reuse h)
    from find_split [OF reuse(1)] obtain pre post
      where sp: "as = pre @ h # post" "\<forall>y \<in> set pre. \<not> fits sz (hmem s) y" "fits sz (hmem s) h"
      by blast
    have e: "a = h + header_size"
      "s1 = s\<lparr>hmem := (hmem s)(h := (hmem s h)\<lparr>s_is_free := 0\<rparr>),
               events := events s @ [Lock, Unlock]\<rparr>"
      using m reuse(2) by simp_all
    have "heap_ok s1" "print_mem_list s1 = Some (pre @ h # post)"
      unfolding e(2) using malloc_reuse_ok [OF ok pl, of h] sp(1) by simp_all
    moreover have "\<forall>x \<in> set pre. \<not> fits sz (hmem s1) x"
      using sp(2) fits_clear [of sz "hmem s" h] by (auto simp: e(2))
    moreover have "sz \<le> s_size (hmem s1 h)" "s_is_free (hmem s1 h) = 0"
      using sp(3) by (simp_all add: e(2) fits_def)
    ultimately show ?thesis unfolding e(1) by (intro exI [of _ pre] exI [of _ post]) simp
  next
    case carve
    note hb = heap_ok_brk [OF ok pl]
    have e: "a = brk s + header_size"
      "s1 = s\<lparr>hmem := (if as = []
                         then (hmem s)(brk s := \<lparr>s_size = sz, s_is_free = 0, s_next = NULL\<rparr>)
                         else (hmem s)(brk s := \<lparr>s_size = sz, s_is_free = 0, s_next = NULL\<rparr>,
                                       tail s := (hmem s (tail s))\<lparr>s_next := brk s\<rparr>)),
               head := (if as = [] then brk s else head s),
               tail := brk s,
               brk := brk s + (header_size + sz),
               events := events s @ [Lock, Sbrk (header_size + sz), Unlock]\<rparr>"
      using m carve(3) by simp_all
    note co = carve_ok [OF ok pl b63 carve(2) e(2)]
    from ok pl have tl: "tail s = (if as = [] then NULL else last as)"
      by (auto elim!: heap_okD)
    have tb: "as \<noteq> [] \<Longrightarrow> brk s \<noteq> tail s"
      using tl hb(1) by (metis last_in_set)
    have nf: "\<forall>x \<in> set as. \<not> fits sz (hmem s) x"
      using carve(1) by (simp add: find_None_iff)
    have "\<forall>x \<in> set as. \<not> fits sz (hmem s1) x"
    proof
      fix x assume x: "x \<in> set as"
      then have "x \<noteq> brk s" using hb(1) by auto
      then show "\<not> fits sz (hmem s1) x"
        using nf x unfolding e(2) by (simp add: fits_carve)
    qed
    moreover have "hmem s1 (brk s) = \<lparr>s_size = sz, s_is_free = 0, s_next = NULL\<rparr>"
      using tb by (auto simp: e(2))
    ultimately show ?thesis
      using co unfolding e(1) by (intro exI [of _ as] exI [of _ "[]"]) simp
  next
    case fail
    then show ?thesis using m a by simp
  qed
qed



section \<open>What \<open>realloc\<close> needs from \<open>malloc\<close>\<close>

lemma memcpy_copies:
  assumes "memcpy dst src n s = Some s'" and "i < unat n"
  shows "bytes s' (dst + word_of_nat i) = bytes s (src + word_of_nat i)"
proof -
  have "word_of_nat i < n" using assms(2) by (rule word_of_nat_less_unat)
  then show ?thesis using assms(1) by (auto simp: memcpy_def split: if_splits)
qed

text \<open>In a well-formed state the payload of every block of the list can be accessed.\<close>

lemma payload_accessible:
  assumes ok: "heap_ok s" and pl: "print_mem_list s = Some as" and h: "h \<in> set as"
    and n: "n \<le> unat (s_size (hmem s h))"
  shows "accessible s (h + header_size) n"
proof -
  from ok pl obtain
    lo: "\<And>h. h \<in> set as \<Longrightarrow> unat (brk_lo s) \<le> unat h"
    and bnd: "\<And>h. h \<in> set as \<Longrightarrow> blk_end (hmem s) h \<le> unat (brk s)"
    by (auto elim!: heap_okD)
  note hb = heap_ok_brk [OF ok pl]
  note ar = blk_arith [OF bnd [OF h] hb(5)]
  show ?thesis
  proof (rule accessible_below)
    show "unat (brk_lo s) \<le> unat (h + header_size)" using lo [OF h] ar(1) by simp
    show "unat (h + header_size) + n \<le> unat (brk s)"
      using bnd [OF h] ar(1) n by (simp add: blk_end_def header_size_def)
  qed
qed

lemma malloc_result_accessible:
  fixes sz :: size_t
  assumes ok: "heap_ok s" and sz: "sz \<noteq> 0" and b63: "unat sz + 24 < 2 ^ 63"
    and m: "malloc sz s = Some (a, s1)" and a: "a \<noteq> NULL"
  shows "accessible s1 a (unat sz)"
proof -
  from malloc_position [OF ok sz b63 m a] obtain pre post
    where ok1: "heap_ok s1"
      and pl1: "print_mem_list s1 = Some (pre @ (a - header_size) # post)"
      and big: "sz \<le> s_size (hmem s1 (a - header_size))"
    by blast
  have "accessible s1 (a - header_size + header_size) (unat sz)"
    by (rule payload_accessible [OF ok1 pl1]) (use big in \<open>simp_all add: word_le_nat_alt\<close>)
  then show ?thesis by simp
qed

text \<open>
  What \<open>malloc\<close> returns to \<open>realloc\<close> when the block has to grow: a block apart from the
  old payload, with the old header and all payload bytes as they were.
\<close>

lemma malloc_for_realloc:
  fixes sz :: size_t
  assumes ok: "heap_ok s" and pl: "print_mem_list s = Some as" and h: "h \<in> set as"
    and gt: "s_size (hmem s h) < sz" and b63: "unat sz + 24 < 2 ^ 63"
  shows "\<exists>ret s1 as1. malloc sz s = Some (ret, s1) \<and> bytes s1 = bytes s \<and>
           (ret = NULL \<longrightarrow> s1 = s\<lparr>events := events s1\<rparr>) \<and>
           (ret \<noteq> NULL \<longrightarrow>
              s_size (hmem s1 h) = s_size (hmem s h) \<and>
              print_mem_list s1 = Some as1 \<and> h \<in> set as1 \<and>
              tail s1 = (if as1 = [] then NULL else last as1) \<and>
              accessible s1 ret (unat (s_size (hmem s h))) \<and>
              accessible s1 (h + header_size) (unat (s_size (hmem s h))) \<and>
              (unat (h + header_size) + unat (s_size (hmem s h)) \<le> unat ret \<or>
               unat ret + unat (s_size (hmem s h)) \<le> unat (h + header_size)))"
proof -
  have sz: "sz \<noteq> 0" using gt by (metis word_not_simps(1))
  from ok pl obtain
    tl: "tail s = (if as = [] then NULL else last as)"
    and srt: "sorted_wrt (\<lambda>a b. blk_end (hmem s) a \<le> unat b) as"
    and bnd: "\<And>h. h \<in> set as \<Longrightarrow> blk_end (hmem s) h \<le> unat (brk s)"
    by (auto elim!: heap_okD)
  note hb = heap_ok_brk [OF ok pl]
  note ar = blk_arith [OF bnd [OF h] hb(5)]
  have src: "unat (h + header_size) + unat (s_size (hmem s h)) = blk_end (hmem s) h"
    using ar(1) by (simp add: blk_end_def header_size_def)
  have a2: "accessible s (h + header_size) (unat (s_size (hmem s h)))"
    by (rule payload_accessible [OF ok pl h]) simp
  from ok pl sz b63 show ?thesis
  proof (cases rule: malloc_cases)
    case (reuse h')
    from find_in_list [OF reuse(1)] have h': "h' \<in> set as" "fits sz (hmem s) h'" by simp_all
    have big: "unat (s_size (hmem s h)) < unat (s_size (hmem s h'))"
      using gt h'(2) by (simp add: fits_def word_less_nat_alt word_le_nat_alt)
    then have ne: "h \<noteq> h'" by auto
    note ar' = blk_arith [OF bnd [OF h'(1)] hb(5)]
    have nz: "h' + header_size \<noteq> NULL" using ar'(1) by (metis add_is_0 unat_0 zero_neq_numeral)
    have a1: "accessible s (h' + header_size) (unat (s_size (hmem s h)))"
      by (rule payload_accessible [OF ok pl h'(1)]) (use big in simp)
    from sorted_wrt_either [OF srt h h'(1) ne]
    have apart: "unat (h + header_size) + unat (s_size (hmem s h)) \<le> unat (h' + header_size) \<or>
          unat (h' + header_size) + unat (s_size (hmem s h)) \<le> unat (h + header_size)"
    proof
      assume "blk_end (hmem s) h \<le> unat h'"
      then show ?thesis using src ar'(1) by simp
    next
      assume "blk_end (hmem s) h' \<le> unat h"
      then have "unat h' + 24 + unat (s_size (hmem s h')) \<le> unat h"
        by (simp add: blk_end_def header_size_def)
      then show ?thesis using big ar(1) ar'(1) by simp
    qed
    show ?thesis
      using reuse(2) ne nz apart tl h a1 a2 malloc_reuse_ok(2) [OF ok pl, of h']
      by (intro exI [of _ "h' + header_size"] exI [of _ as]) (simp add: exI [of _ as])
  next
    case carve
    define s1 where "s1 = s\<lparr>hmem := (if as = []
                         then (hmem s)(brk s := \<lparr>s_size = sz, s_is_free = 0, s_next = NULL\<rparr>)
                         else (hmem s)(brk s := \<lparr>s_size = sz, s_is_free = 0, s_next = NULL\<rparr>,
                                       tail s := (hmem s (tail s))\<lparr>s_next := brk s\<rparr>)),
               head := (if as = [] then brk s else head s),
               tail := brk s,
               brk := brk s + (header_size + sz),
               events := events s @ [Lock, Sbrk (header_size + sz), Unlock]\<rparr>"
    have m: "malloc sz s = Some (brk s + header_size, s1)"
      using carve(3) by (simp add: s1_def)
    note co = carve_ok [OF ok pl b63 carve(2) s1_def]
    have hne: "h \<noteq> brk s" using h hb(1) by auto
    have tb: "as \<noteq> [] \<Longrightarrow> brk s \<noteq> tail s"
      using tl hb(1) by (metis last_in_set)
    have new: "hmem s1 (brk s) = \<lparr>s_size = sz, s_is_free = 0, s_next = NULL\<rparr>"
      using tb by (auto simp: s1_def)
    have same: "s_size (hmem s1 h) = s_size (hmem s h)"
      using hne by (auto simp: s1_def)
    have lt: "unat (s_size (hmem s h)) < unat sz"
      using gt by (simp add: word_less_nat_alt)
    have b1: "accessible s1 (brk s + header_size) (unat (s_size (hmem s h)))"
      by (rule payload_accessible [OF co, of "brk s"]) (use lt new in simp_all)
    have b2: "accessible s1 (h + header_size) (unat (s_size (hmem s h)))"
      by (rule payload_accessible [OF co, of h]) (use h same in simp_all)
    have "unat (brk s + header_size) = unat (brk s) + 24"
      using hb(5) by (simp add: header_size_def unat_word_ariths)
    then have apart: "unat (h + header_size) + unat (s_size (hmem s h)) \<le> unat (brk s + header_size)"
      using src bnd [OF h] by simp
    have by1: "bytes s1 = bytes s" and t1: "tail s1 = brk s" by (simp_all add: s1_def)
    show ?thesis
      using m hb(4) same co(2) h t1 b1 b2 apart by1
      by (intro exI [of _ "brk s + header_size"] exI [of _ s1] exI [of _ "as @ [brk s]"]) simp
  next
    case fail
    then show ?thesis by simp
  qed
qed

section \<open>What a run does to the headers\<close>







section \<open>Facts about the example states\<close>

lemmas run_defs =
  malloc_def get_free_block_def get_free_block_from.simps sbrk_def pthread_mutex_lock_def
  pthread_mutex_unlock_def header_size_def accessible_def page_up_def page_size_def Let_def

lemma malloc_initial: "malloc 64 (initial 0x1000 0x2000) = Some (0x1018, one_block)"
  by (simp add: run_defs initial_def one_block_def)

lemma print_mem_list_initial: "print_mem_list (initial b hi) = Some []"
  by (simp add: print_mem_list_def initial_def)

lemma heap_ok_initial:
  "0 < unat b \<Longrightarrow> unat b \<le> unat hi \<Longrightarrow> unat hi < 2 ^ 63 \<Longrightarrow> heap_ok (initial b hi)"
  unfolding heap_ok_def print_mem_list_initial by (simp add: initial_def)

lemma print_mem_list_one_block: "print_mem_list one_block = Some [0x1000]"
  by (simp add: print_mem_list_def one_block_def mem_list_step)


lemma print_mem_list_two_blocks: "print_mem_list two_blocks = Some [0x1000, 0x1058]"
  by (simp add: print_mem_list_def two_blocks_def mem_list_step)

lemma heap_ok_two_blocks: "heap_ok two_blocks"
  unfolding heap_ok_def print_mem_list_two_blocks
  by (simp add: two_blocks_def blk_end_def header_size_def)


lemma print_mem_list_full_block: "print_mem_list full_block = Some [0x1000]"
  by (simp add: print_mem_list_def full_block_def one_block_def mem_list_step)

lemma heap_ok_full_block: "heap_ok full_block"
  unfolding heap_ok_def print_mem_list_full_block
  by (simp add: full_block_def one_block_def blk_end_def header_size_def)

lemma in_dir_one_block: "in_dir 0x1000 one_block"
  by (simp add: in_dir_def print_mem_list_one_block)






lemma print_mem_list_two_blocks_data:
  "print_mem_list two_blocks_data = Some [0x1000, 0x1058]"
  by (simp add: two_blocks_data_def print_mem_list_two_blocks)

lemma heap_ok_two_blocks_data: "heap_ok two_blocks_data"
  by (simp add: two_blocks_data_def heap_ok_two_blocks)

lemma malloc_overflowed: "malloc (- 24) one_block = Some (0x1070, overflowed)"
  by (simp add: run_defs one_block_def overflowed_def)

lemma print_mem_list_overflowed: "print_mem_list overflowed = Some [0x1000, 0x1058]"
  by (simp add: print_mem_list_def overflowed_def mem_list_step)

lemma free_overflowed:
  "free 0x1018 overflowed =
     Some \<lparr>hmem = (\<lambda>a. \<lparr>s_size = 0, s_is_free = 0, s_next = NULL\<rparr>)
                    (0x1058 := \<lparr>s_size = - 24, s_is_free = 0, s_next = NULL\<rparr>,
                     0x1000 := \<lparr>s_size = 64, s_is_free = 0, s_next = NULL\<rparr>),
           bytes = (\<lambda>a. 0), head = 0x1000, tail = 0x1000, brk = 0x1000, brk_lo = 0x1000,
           brk_hi = 0x2000,
           events = [Lock, Sbrk 88, Unlock, Lock, Sbrk 0, Unlock, Lock, Sbrk 0, Sbrk (- 88),
                     Unlock]\<rparr>"
  by (simp add: free_def unlink_tail_def unlink_loop.simps [of "0x1000"] sbrk_def
      pthread_mutex_lock_def pthread_mutex_unlock_def header_size_def overflowed_def Let_def)

section \<open>Claims about zero-sized requests\<close>

text \<open>
  Claim C8. \<open>malloc(0)\<close> returns \<open>NULL\<close>, and \<open>calloc(num, nsize)\<close> returns \<open>NULL\<close> when
  \<open>num\<close> or \<open>nsize\<close> is 0, whatever the other argument is. The state comes back as it
  was, log included: no lock taken, no header touched, no call of \<open>sbrk\<close>.
\<close>

theorem zero_requests_are_null:
  "malloc 0 s = Some (NULL, s) \<and> calloc 0 k s = Some (NULL, s) \<and> calloc k 0 s = Some (NULL, s)"
  by (simp add: malloc_def calloc_def)

section \<open>Claims about \<open>calloc\<close>\<close>

text \<open>
  What \<open>calloc\<close> does where no size overflows in \<open>malloc\<close>. For \<open>num > 0\<close> and
  \<open>nsize > 0\<close>: when the product \<open>num * nsize\<close> does not fit into \<open>size_t\<close>, \<open>calloc\<close>
  returns \<open>NULL\<close> and leaves the state alone; the division of the guard has a result,
  since \<open>num\<close> is not 0 there. In a well-formed state and for a product that stays below
  \<open>2 ^ 63\<close> with the header added, \<open>calloc\<close> returns the pointer that
  \<open>malloc(num * nsize)\<close> returns, and on success every one of the \<open>num * nsize\<close> payload
  bytes is 0 while all other bytes and the rest of the state are as \<open>malloc\<close> left them.
\<close>

lemma calloc_no_wrap:
  assumes "num \<noteq> 0" and "nsize \<noteq> 0"
  shows "(2 ^ 64 \<le> unat num * unat nsize \<longrightarrow> calloc num nsize s = Some (NULL, s)) \<and>
         (heap_ok s \<and> unat num * unat nsize + 24 < 2 ^ 63 \<longrightarrow>
            unat (num * nsize) = unat num * unat nsize \<and>
            (\<exists>block s1 s'. malloc (num * nsize) s = Some (block, s1) \<and>
               calloc num nsize s = Some (block, s') \<and> heap_ok s' \<and>
               (block = NULL \<longrightarrow> s' = s1) \<and>
               (block \<noteq> NULL \<longrightarrow>
                  s' = s1\<lparr>bytes := bytes s'\<rparr> \<and>
                  (\<forall>i < unat num * unat nsize. bytes s' (block + word_of_nat i) = 0) \<and>
                  (\<forall>a. num * nsize \<le> a - block \<longrightarrow> bytes s' a = bytes s1 a))))"
proof (intro conjI impI)
  assume ov: "2 ^ 64 \<le> unat num * unat nsize"
  then have "nsize \<noteq> (num * nsize) div num"
    using mul_div_roundtrip [OF assms(1), of nsize] by simp
  then show "calloc num nsize s = Some (NULL, s)"
    using assms by (simp add: calloc_def size_div_def)
next
  assume h: "heap_ok s \<and> unat num * unat nsize + 24 < 2 ^ 63"
  then have ok: "heap_ok s" and lt: "unat num * unat nsize < 2 ^ 64" by simp_all
  show prod: "unat (num * nsize) = unat num * unat nsize"
    using lt by (simp add: unat_word_ariths)
  have rt: "(num * nsize) div num = nsize"
    using lt mul_div_roundtrip [OF assms(1), of nsize] by simp
  have un: "calloc num nsize s =
      Option.bind (malloc (num * nsize) s) (\<lambda>(block, s1).
        if block = NULL then Some (NULL, s1)
        else Option.bind (memset block 0 (num * nsize) s1) (\<lambda>s2. Some (block, s2)))"
    using assms rt by (simp add: calloc_def size_div_def Let_def)
  have b: "unat (num * nsize) + 24 < 2 ^ 63" using h prod by simp
  have nz: "num * nsize \<noteq> 0"
    using assms prod by (metis mult_is_0 unat_eq_0)
  from malloc_heap_ok [OF ok b] obtain block s1
    where m: "malloc (num * nsize) s = Some (block, s1)" and ok1: "heap_ok s1"
    by blast
  show "\<exists>block s1 s'. malloc (num * nsize) s = Some (block, s1) \<and>
               calloc num nsize s = Some (block, s') \<and> heap_ok s' \<and>
               (block = NULL \<longrightarrow> s' = s1) \<and>
               (block \<noteq> NULL \<longrightarrow>
                  s' = s1\<lparr>bytes := bytes s'\<rparr> \<and>
                  (\<forall>i < unat num * unat nsize. bytes s' (block + word_of_nat i) = 0) \<and>
                  (\<forall>a. num * nsize \<le> a - block \<longrightarrow> bytes s' a = bytes s1 a))"
  proof (cases "block = NULL")
    case True
    then show ?thesis using m ok1 by (simp add: un)
  next
    case False
    have acc: "accessible s1 block (unat (num * nsize))"
      by (rule malloc_result_accessible [OF ok nz b m False])
    define s' where "s' = s1\<lparr>bytes := (\<lambda>a. if a - block < num * nsize then 0 else bytes s1 a)\<rparr>"
    have c: "calloc num nsize s = Some (block, s')"
      using m False acc by (simp add: un memset_def s'_def)
    have z: "bytes s' (block + word_of_nat i) = 0" if "i < unat num * unat nsize" for i
    proof -
      have "word_of_nat i < num * nsize"
        using that prod by (simp add: word_of_nat_less_unat)
      then show ?thesis by (simp add: s'_def)
    qed
    have o: "bytes s' a = bytes s1 a" if "num * nsize \<le> a - block" for a
      using that by (auto simp: s'_def)
    have "heap_ok s'" and "s' = s1\<lparr>bytes := bytes s'\<rparr>"
      using ok1 by (simp_all add: s'_def)
    then show ?thesis using m c False z o by blast
  qed
qed

lemma calloc_no_wrap_example:
  "calloc (2 ^ 32) (2 ^ 32) (initial 0x1000 0x2000) = Some (NULL, initial 0x1000 0x2000) \<and>
   (\<exists>s'. calloc 4 16 ((initial 0x1000 0x2000)\<lparr>bytes := (\<lambda>a. 0xFF)\<rparr>) = Some (0x1018, s') \<and>
         bytes s' 0x1018 = 0 \<and> bytes s' 0x1057 = 0 \<and> bytes s' 0x1058 = 0xFF)"
proof -
  define dirty where "dirty = (initial 0x1000 0x2000)\<lparr>bytes := (\<lambda>a. 0xFF)\<rparr>"
  have a: "calloc (2 ^ 32) (2 ^ 32) (initial 0x1000 0x2000) = Some (NULL, initial 0x1000 0x2000)"
    using calloc_no_wrap [of "2 ^ 32" "2 ^ 32" "initial 0x1000 0x2000"] by simp
  have ok: "heap_ok dirty" by (simp add: dirty_def heap_ok_initial)
  have m: "\<exists>s1. malloc 64 dirty = Some (0x1018, s1) \<and> bytes s1 = (\<lambda>a. 0xFF)"
    by (simp add: run_defs initial_def dirty_def)
  from m obtain s1 where m1: "malloc 64 dirty = Some (0x1018, s1)"
    and by1: "bytes s1 = (\<lambda>a. 0xFF)"
    by blast
  have "\<exists>block t s'. malloc 64 dirty = Some (block, t) \<and>
          calloc 4 16 dirty = Some (block, s') \<and>
          (block \<noteq> NULL \<longrightarrow>
             (\<forall>i < 64. bytes s' (block + word_of_nat i) = 0) \<and>
             (\<forall>a. 64 \<le> a - block \<longrightarrow> bytes s' a = bytes t a))"
    using calloc_no_wrap [of 4 16 dirty] ok by simp blast
  then obtain s' where s': "calloc 4 16 dirty = Some (0x1018, s')"
    and z: "\<forall>i < 64. bytes s' (0x1018 + word_of_nat i) = 0"
    and o: "\<forall>a. 64 \<le> a - 0x1018 \<longrightarrow> bytes s' a = bytes s1 a"
    unfolding m1 by auto
  from z [rule_format, of 0] z [rule_format, of 63] o [rule_format, of "0x1058"] by1
  have "bytes s' 0x1018 = 0" and "bytes s' 0x1057 = 0" and "bytes s' 0x1058 = 0xFF"
    by simp_all
  with s' a show ?thesis unfolding dirty_def by blast
qed

text \<open>
  Claim C7. The guard of \<open>calloc\<close> on the product is as the claim says, but the zero fill on
  success is not reached for \<open>calloc(1, SIZE_MAX)\<close> at process start. The product
  \<open>2 ^ 64 - 1\<close> fits into \<open>size_t\<close> and passes the guard. \<open>malloc(SIZE_MAX)\<close> adds
  \<open>header_size\<close> without a check, asks \<open>sbrk\<close> for the 23 bytes the sum wraps to and returns
  a pointer. \<open>memset\<close> is then to fill \<open>2 ^ 64 - 1\<close> bytes from that pointer, which runs
  out of the memory that can be accessed: \<open>calloc\<close> does not return.
\<close>

theorem calloc_fill_overruns:
  "unat (1 :: size_t) * unat (- 1 :: size_t) < 2 ^ 64 \<and>
   size_div (1 * (- 1)) 1 = Some (- 1) \<and>
   (\<exists>s1. malloc (- 1) (initial 0x1000 0x2000) = Some (0x1018, s1) \<and>
         events s1 = [Lock, Sbrk 23, Unlock] \<and> brk s1 = 0x1017 \<and>
         memset 0x1018 0 (- 1) s1 = None) \<and>
   calloc 1 (- 1) (initial 0x1000 0x2000) = None"
proof -
  have u: "unat (- 1 :: size_t) = 2 ^ 64 - 1"
    by (simp add: unsigned_minus_1_eq_mask mask_eq_exp_minus_1)
  define s1 where "s1 =
     \<lparr>hmem = (\<lambda>a. \<lparr>s_size = 0, s_is_free = 0, s_next = NULL\<rparr>)
               (0x1000 := \<lparr>s_size = - 1, s_is_free = 0, s_next = NULL\<rparr>),
      bytes = (\<lambda>a. 0), head = 0x1000, tail = 0x1000, brk = 0x1017, brk_lo = 0x1000,
      brk_hi = 0x2000, events = [Lock, Sbrk 23, Unlock]\<rparr>"
  have m: "malloc (- 1) (initial 0x1000 0x2000) = Some (0x1018, s1)"
    by (simp add: run_defs initial_def s1_def)
  have f: "memset 0x1018 0 (- 1) s1 = None"
    by (simp add: memset_def accessible_def page_up_def page_size_def u s1_def)
  have c: "calloc 1 (- 1) (initial 0x1000 0x2000) = None"
    using m f by (simp add: calloc_def size_div_def)
  have "events s1 = [Lock, Sbrk 23, Unlock]" and "brk s1 = 0x1017" by (simp_all add: s1_def)
  with m f c show ?thesis by (simp add: u size_div_def)
qed

section \<open>Claims about \<open>free\<close>\<close>

text \<open>
  What \<open>free\<close> does in a well-formed state. Let \<open>block\<close> be a non-null pointer whose
  header, at \<open>block - header_size\<close>, is in the directory of a well-formed state. \<open>free(block)\<close> takes the shrink path exactly
  when \<open>block + size\<close> is the break. Then the header was the last of the directory and is
  no longer in it: with \<open>head = tail\<close> the directory is empty afterwards, otherwise the
  predecessor of the header is the new tail and its \<open>next\<close> is \<open>NULL\<close>, and nothing else is
  written; the break goes down by exactly \<open>size + header_size\<close> bytes. Otherwise only
  \<open>is_free\<close> of the header is set, and directory and break stay as they are. \<open>free(NULL)\<close>
  changes nothing. The state is well-formed afterwards in both cases.
\<close>

lemma free_well_formed:
  assumes "heap_ok s" and "print_mem_list s = Some as"
    and "block \<noteq> NULL" and "block - header_size \<in> set as"
  shows "free NULL s = Some s \<and>
    (\<exists>s'. free block s = Some s' \<and> heap_ok s' \<and>
       (if block + s_size (hmem s (block - header_size)) = brk s
        then as = butlast as @ [block - header_size] \<and>
             print_mem_list s' = Some (butlast as) \<and>
             (if head s = tail s
              then butlast as = [] \<and> head s' = NULL \<and> tail s' = NULL \<and> hmem s' = hmem s
              else butlast as \<noteq> [] \<and> head s' = head s \<and> tail s' = last (butlast as) \<and>
                   s_next (hmem s (tail s')) = block - header_size \<and>
                   hmem s' = (hmem s)(tail s' := (hmem s (tail s'))\<lparr>s_next := NULL\<rparr>)) \<and>
             brk s' = brk s - (s_size (hmem s (block - header_size)) + header_size) \<and>
             unat (brk s') + (unat (s_size (hmem s (block - header_size))) + unat header_size) =
               unat (brk s) \<and>
             events s' = events s @
               [Lock, Sbrk 0, Sbrk (0 - s_size (hmem s (block - header_size)) - header_size),
                Unlock]
        else hmem s' = (hmem s)(block - header_size :=
                          (hmem s (block - header_size))\<lparr>s_is_free := 1\<rparr>) \<and>
             print_mem_list s' = Some as \<and> head s' = head s \<and> tail s' = tail s \<and>
             brk s' = brk s \<and> events s' = events s @ [Lock, Sbrk 0, Unlock]))"
proof -
  define h where "h = block - header_size"
  have blk: "block = h + header_size" by (simp add: h_def)
  have null: "free NULL s = Some s" by (simp add: free_def)
  show ?thesis
  proof (cases "block + s_size (hmem s h) = brk s")
    case True
    then have eq: "h + header_size + s_size (hmem s h) = brk s" by (simp add: blk)
    have hin: "h \<in> set as" using assms(4) by (simp add: h_def)
    note f = shrink_facts [OF assms(1,2) hin eq]
    from free_shrink [OF assms(1,2) hin eq] obtain s' where
      fr: "free (h + header_size) s = Some s'" and as: "as = butlast as @ [h]"
      and pl': "print_mem_list s' = Some (butlast as)" and ok': "heap_ok s'"
      and hm: "hmem s' = (if butlast as = [] then hmem s
                      else (hmem s)(last (butlast as) :=
                              (hmem s (last (butlast as)))\<lparr>s_next := NULL\<rparr>))"
      and hd: "head s' = (if butlast as = [] then NULL else head s)"
      and tl: "tail s' = (if butlast as = [] then NULL else last (butlast as))"
      and br: "brk s' = h"
      and ev: "events s' = events s @
             [Lock, Sbrk 0, Sbrk (0 - s_size (hmem s h) - header_size), Unlock]"
      by blast
    have d: "distinct as" using assms(2) unfolding print_mem_list_def by (rule mem_list_distinct)
    have hds: "head s = hd as" using head_of_list [OF assms(2)] f(1) by simp
    have single: "head s = tail s \<longleftrightarrow> butlast as = []"
    proof
      assume "head s = tail s"
      then have "hd as = last as" using hds f(2,3) by simp
      then show "butlast as = []" using d as
        by (cases "butlast as") (auto simp: hd_append split: if_splits)
    next
      assume "butlast as = []"
      then show "head s = tail s" using as hds f(3) by (metis append_Nil list.sel(1))
    qed
    have nx: "s_next (hmem s (last (butlast as))) = h" if "butlast as \<noteq> []"
    proof -
      from that obtain bs p where "butlast as = bs @ [p]" by (metis rev_exhaust)
      with as have "as = bs @ [p, h]" "last (butlast as) = p" by simp_all
      then show ?thesis using mem_list_pred [of "hmem s" "head s" bs p h] assms(2)
        by (simp add: print_mem_list_def)
    qed
    have b1: "brk s' = brk s - (s_size (hmem s h) + header_size)"
      using eq [symmetric] br by simp
    have b2: "unat (brk s') + (unat (s_size (hmem s h)) + unat header_size) = unat (brk s)"
      using f(4) br by (simp add: header_size_def)
    show ?thesis
      using True null fr as pl' ok' hm hd tl ev single nx b1 b2
      unfolding blk h_def [symmetric] by (cases "butlast as = []") simp_all
  next
    case False
    then have ne: "block + s_size (hmem s (block - header_size)) \<noteq> brk s" by (simp add: h_def)
    from free_mark_ok [OF assms(1,3) ne] obtain s' where
      "free block s = Some s'" "heap_ok s'" "print_mem_list s' = print_mem_list s" by blast
    then show ?thesis
      using False null assms(2) free_mark [OF assms(3) ne] by (auto simp: h_def)
  qed
qed

lemma free_well_formed_example:
  "heap_ok two_blocks \<and> print_mem_list two_blocks = Some [0x1000, 0x1058] \<and>
   (\<exists>s'. free 0x1070 two_blocks = Some s' \<and> print_mem_list s' = Some [0x1000] \<and>
         tail s' = 0x1000 \<and> brk s' = 0x1058) \<and>
   (\<exists>s'. free 0x1018 two_blocks = Some s' \<and> s_is_free (hmem s' 0x1000) = 1 \<and>
         print_mem_list s' = Some [0x1000, 0x1058] \<and> brk s' = 0x10B0)"
proof -
  have m1: "(0x1070 :: addr) - header_size \<in> set [0x1000, 0x1058]"
    and m2: "(0x1018 :: addr) - header_size \<in> set [0x1000, 0x1058]"
    by (simp_all add: header_size_def)
  have c1: "(0x1070 :: addr) + s_size (hmem two_blocks (0x1070 - header_size)) = brk two_blocks"
    and c2: "(0x1018 :: addr) + s_size (hmem two_blocks (0x1018 - header_size)) \<noteq> brk two_blocks"
    and c3: "head two_blocks \<noteq> tail two_blocks"
    by (simp_all add: header_size_def two_blocks_def)
  have a: "\<exists>s'. free 0x1070 two_blocks = Some s' \<and> print_mem_list s' = Some [0x1000] \<and>
         tail s' = 0x1000 \<and> brk s' = 0x1058"
    using free_well_formed [OF heap_ok_two_blocks print_mem_list_two_blocks _ m1]
    unfolding if_P [OF c1] if_not_P [OF c3]
    by (auto simp: header_size_def two_blocks_def)
  have b: "\<exists>s'. free 0x1018 two_blocks = Some s' \<and> s_is_free (hmem s' 0x1000) = 1 \<and>
         print_mem_list s' = Some [0x1000, 0x1058] \<and> brk s' = 0x10B0"
    using free_well_formed [OF heap_ok_two_blocks print_mem_list_two_blocks _ m2]
    unfolding if_not_P [OF c2]
    by (auto simp: header_size_def two_blocks_def)
  show ?thesis using a b heap_ok_two_blocks print_mem_list_two_blocks by simp
qed

text \<open>
  Claim C1. What the claim says of \<open>free\<close> fails in a state that an overflowed size has
  left. At process start let \<open>a = malloc(64)\<close>, followed by \<open>malloc(SIZE_MAX - 23)\<close>: the
  total size of the second request wraps to 0, its header is written at the break and the
  break does not move, so the block of \<open>a\<close> still ends at the break without being the last
  of the list. \<open>free(a)\<close> passes the test of the shrink path, the loop unlinks the other
  header, the one at the break, and the break drops by \<open>64 + header_size\<close> onto the header
  of \<open>a\<close>, which stays in the directory with \<open>is_free = 0\<close>.
\<close>

theorem free_after_overflow:
  "malloc 64 (initial 0x1000 0x2000) = Some (0x1018, one_block) \<and>
   malloc (- 24) one_block = Some (0x1070, overflowed) \<and>
   print_mem_list overflowed = Some [0x1000, 0x1058] \<and>
   0x1018 + s_size (hmem overflowed (0x1018 - header_size)) = brk overflowed \<and>
   (\<exists>s'. free 0x1018 overflowed = Some s' \<and>
         print_mem_list s' = Some [0x1000] \<and> s_is_free (hmem s' 0x1000) = 0 \<and>
         tail s' = 0x1000 \<and> brk s' = 0x1000 \<and>
         events s' = events overflowed @ [Lock, Sbrk 0, Sbrk (- 88), Unlock])"
proof -
  have e: "0x1018 + s_size (hmem overflowed (0x1018 - header_size)) = brk overflowed"
    by (simp add: overflowed_def header_size_def)
  define s' where "s' = the (free 0x1018 overflowed)"
  have fr: "free 0x1018 overflowed = Some s'" by (simp add: s'_def free_overflowed)
  have "print_mem_list s' = Some [0x1000]" and "s_is_free (hmem s' 0x1000) = 0"
    and "tail s' = 0x1000" and "brk s' = 0x1000"
    and "events s' = events overflowed @ [Lock, Sbrk 0, Sbrk (- 88), Unlock]"
    by (simp_all add: s'_def free_overflowed print_mem_list_def mem_list_step)
       (simp add: overflowed_def)
  with e fr show ?thesis
    using malloc_initial malloc_overflowed print_mem_list_overflowed by blast
qed

section \<open>Claims about \<open>malloc\<close>\<close>



text \<open>
  What \<open>malloc\<close> does when it has to extend the heap and no size overflows. In a
  well-formed state, for \<open>sz \<noteq> 0\<close> that stays below \<open>2 ^ 63\<close> with the header added, and
  with no header of the directory that is free and large enough, \<open>malloc(sz)\<close> asks \<open>sbrk\<close>
  for \<open>header_size + sz\<close> bytes, once. If \<open>sbrk\<close> reports failure, \<open>malloc\<close> returns \<open>NULL\<close>
  and the state is as before, up to the log. Otherwise a single new header, with size
  \<open>sz\<close>, not free and without successor, stands at the old break and is appended to the
  directory behind the old tail; apart from the link of the old tail no header changes, and
  the result is the address of the new header plus \<open>header_size\<close>.
\<close>

lemma malloc_extends_no_wrap:
  fixes sz :: size_t
  assumes ok: "heap_ok s" and pl: "print_mem_list s = Some as" and sz: "sz \<noteq> 0"
    and nf: "find (fits sz (hmem s)) as = None" and b63: "unat sz + 24 < 2 ^ 63"
  shows "\<exists>p s'. malloc sz s = Some (p, s') \<and>
     events s' = events s @ [Lock, Sbrk (header_size + sz), Unlock] \<and>
     (if fst (sbrk (header_size + sz) (pthread_mutex_lock s)) = - 1
      then p = NULL \<and> s' = s\<lparr>events := events s'\<rparr>
      else p = brk s + header_size \<and> p \<noteq> NULL \<and>
           print_mem_list s' = Some (as @ [brk s]) \<and>
           hmem s' (brk s) = \<lparr>s_size = sz, s_is_free = 0, s_next = NULL\<rparr> \<and>
           (\<forall>a. a \<noteq> brk s \<longrightarrow>
              hmem s' a = (if as \<noteq> [] \<and> a = tail s then (hmem s a)\<lparr>s_next := brk s\<rparr>
                           else hmem s a)) \<and>
           head s' = (if as = [] then brk s else head s) \<and> tail s' = brk s \<and>
           brk s' = brk s + (header_size + sz) \<and> heap_ok s' \<and>
           bytes s' = bytes s)"
proof -
  from ok pl have tl: "tail s = (if as = [] then NULL else last as)"
    and lo: "unat (brk_lo s) \<le> unat (brk s)"
    by (auto elim!: heap_okD)
  note hb = heap_ok_brk [OF ok pl]
  have g: "sbrk (header_size + sz) (pthread_mutex_lock s) =
           (if unat (brk s) + 24 + unat sz \<le> unat (brk_hi s)
            then (brk s, (pthread_mutex_lock s)\<lparr>events := events (pthread_mutex_lock s) @ [Sbrk (header_size + sz)],
                            brk := brk s + (header_size + sz)\<rparr>)
            else (- 1, (pthread_mutex_lock s)\<lparr>events := events (pthread_mutex_lock s) @ [Sbrk (header_size + sz)]\<rparr>))"
    using sbrk_grow [OF b63, of "pthread_mutex_lock s"] lo
    by (simp add: pthread_mutex_lock_def)
  show ?thesis
  proof (cases "unat (brk s) + 24 + unat sz \<le> unat (brk_hi s)")
    case False
    then have sb: "fst (sbrk (header_size + sz) (pthread_mutex_lock s)) = - 1"
      by (simp add: g)
    show ?thesis
      using sb by (simp add: malloc_sbrk_fail [OF pl sz nf sb hb(3)])
  next
    case True
    then have sb: "fst (sbrk (header_size + sz) (pthread_mutex_lock s)) \<noteq> - 1"
      using hb(3) by (simp add: g)
    note acc = new_header_accessible [OF ok b63 True]
    have tb: "as \<noteq> [] \<Longrightarrow> brk s \<noteq> tail s"
      using tl hb(1) by (metis last_in_set)
    have l: "mem_list (if as = [] then (hmem s)(brk s := \<lparr>s_size = sz, s_is_free = 0, s_next = NULL\<rparr>)
                   else (hmem s)(brk s := \<lparr>s_size = sz, s_is_free = 0, s_next = NULL\<rparr>,
                                 tail s := (hmem s (tail s))\<lparr>s_next := brk s\<rparr>))
           (if as = [] then brk s else head s) = Some (as @ [brk s])"
      by (rule carve_list [OF pl tl hb(1,2)]) simp
    note m = malloc_sbrk_carve [OF pl sz nf sb acc tl hb(1)]
    have k: "heap_ok (s\<lparr>hmem := (if as = []
                             then (hmem s)(brk s := \<lparr>s_size = sz, s_is_free = 0, s_next = NULL\<rparr>)
                             else (hmem s)(brk s := \<lparr>s_size = sz, s_is_free = 0, s_next = NULL\<rparr>,
                                           tail s := (hmem s (tail s))\<lparr>s_next := brk s\<rparr>)),
                   head := (if as = [] then brk s else head s),
                   tail := brk s,
                   brk := brk s + (header_size + sz),
                   events := events s @ [Lock, Sbrk (header_size + sz), Unlock]\<rparr>)"
      by (rule carve_ok(1) [OF ok pl b63 True refl])
    show ?thesis
      using sb hb(4) tb l k
      by (simp add: m print_mem_list_def)
  qed
qed

lemma malloc_extends_no_wrap_example:
  "heap_ok one_block \<and> heap_ok full_block \<and>
   find (fits 64 (hmem one_block)) [0x1000] = None \<and>
   (\<exists>s'. malloc 64 one_block = Some (0x1070, s') \<and>
         print_mem_list s' = Some [0x1000, 0x1058] \<and>
         hmem s' 0x1058 = \<lparr>s_size = 64, s_is_free = 0, s_next = NULL\<rparr> \<and>
         s_next (hmem s' 0x1000) = 0x1058) \<and>
   (\<exists>s'. malloc 64 full_block = Some (NULL, s') \<and> print_mem_list s' = Some [0x1000])"
proof -
  have ok1: "heap_ok one_block"
    unfolding heap_ok_def print_mem_list_one_block
    by (simp add: one_block_def blk_end_def header_size_def)
  have nf1: "find (fits 64 (hmem one_block)) [0x1000] = None"
    and nf2: "find (fits 64 (hmem full_block)) [0x1000] = None"
    by (simp_all add: fits_def one_block_def full_block_def)
  have c1: "fst (sbrk (header_size + 64) (pthread_mutex_lock one_block)) \<noteq> - 1"
    and c2: "fst (sbrk (header_size + 64) (pthread_mutex_lock full_block)) = - 1"
    by (simp_all add: sbrk_def pthread_mutex_lock_def header_size_def one_block_def
        full_block_def)
  have a: "\<exists>s'. malloc 64 one_block = Some (0x1070, s') \<and>
         print_mem_list s' = Some [0x1000, 0x1058] \<and>
         hmem s' 0x1058 = \<lparr>s_size = 64, s_is_free = 0, s_next = NULL\<rparr> \<and>
         s_next (hmem s' 0x1000) = 0x1058"
    using malloc_extends_no_wrap [OF ok1 print_mem_list_one_block _ nf1]
    unfolding if_not_P [OF c1]
    by (auto simp: header_size_def one_block_def)
  have b: "\<exists>s'. malloc 64 full_block = Some (NULL, s') \<and> print_mem_list s' = Some [0x1000]"
    using malloc_extends_no_wrap [OF heap_ok_full_block print_mem_list_full_block _ nf2]
    unfolding if_P [OF c2]
    by (auto simp: print_mem_list_full_block)
  show ?thesis using ok1 heap_ok_full_block nf1 a b by simp
qed

text \<open>
  Claim C3. What the claim says of \<open>malloc\<close> fails where \<open>header_size + size\<close> overflows,
  and in the states this leaves. For \<open>malloc(SIZE_MAX - 23)\<close> at process start nothing can be
  reused and the total size wraps to 0: \<open>sbrk(0)\<close> grants nothing, the header is written
  at the break, where no memory can be accessed, and \<open>malloc\<close> does not return. After
  \<open>malloc(64)\<close> the same request is served: its header is written at the break, which does
  not move. In the state this leaves nothing can be reused for \<open>malloc(64)\<close>, \<open>sbrk\<close> grants
  the 88 bytes and returns the break, which is the address of the tail header: the new
  header replaces the tail header instead of following it, and the link of the old tail
  makes it its own successor, so that the walk of the list does not end any more.
\<close>

theorem malloc_after_overflow:
  "(- 24 :: size_t) \<noteq> 0 \<and>
   find (fits (- 24) (hmem (initial 0x1000 0x2000))) [] = None \<and>
   header_size + (- 24) = 0 \<and>
   malloc (- 24) (initial 0x1000 0x2000) = None \<and>
   malloc (- 24) one_block = Some (0x1070, overflowed) \<and>
   print_mem_list overflowed = Some [0x1000, 0x1058] \<and> tail overflowed = 0x1058 \<and>
   find (fits 64 (hmem overflowed)) [0x1000, 0x1058] = None \<and>
   (\<exists>s'. malloc 64 overflowed = Some (0x1070, s') \<and>
         events s' = events overflowed @ [Lock, Sbrk 88, Unlock] \<and>
         hmem s' 0x1058 = \<lparr>s_size = 64, s_is_free = 0, s_next = 0x1058\<rparr> \<and>
         tail s' = 0x1058 \<and> print_mem_list s' = None)"
proof -
  define s' where "s' =
     \<lparr>hmem = (\<lambda>a. \<lparr>s_size = 0, s_is_free = 0, s_next = NULL\<rparr>)
               (0x1000 := \<lparr>s_size = 64, s_is_free = 0, s_next = 0x1058\<rparr>,
                0x1058 := \<lparr>s_size = 64, s_is_free = 0, s_next = 0x1058\<rparr>),
      bytes = (\<lambda>a. 0), head = 0x1000, tail = 0x1058, brk = 0x10B0, brk_lo = 0x1000,
      brk_hi = 0x2000,
      events = [Lock, Sbrk 88, Unlock, Lock, Sbrk 0, Unlock, Lock, Sbrk 88, Unlock]\<rparr>"
  have m: "malloc 64 overflowed = Some (0x1070, s')"
    by (simp add: run_defs overflowed_def s'_def)
  have cyc: "mem_list (hmem s') 0x1058 = None"
  proof (cases "mem_list (hmem s') 0x1058")
    case None
    then show ?thesis .
  next
    case (Some as)
    have "mem_list (hmem s') 0x1058 =
        Option.bind (mem_list (hmem s') 0x1058) (\<lambda>rest. Some (0x1058 # rest))"
      by (subst mem_list.simps) (simp add: s'_def)
    then have "as = 0x1058 # as" using Some by simp
    then show ?thesis by simp
  qed
  have hd: "head s' = 0x1000" by (simp add: s'_def)
  have "mem_list (hmem s') 0x1000 =
      Option.bind (mem_list (hmem s') 0x1058) (\<lambda>rest. Some (0x1000 # rest))"
    by (subst mem_list.simps) (simp add: s'_def)
  then have p: "print_mem_list s' = None"
    by (simp add: cyc print_mem_list_def hd)
  have e: "events s' = events overflowed @ [Lock, Sbrk 88, Unlock]"
    and h: "hmem s' 0x1058 = \<lparr>s_size = 64, s_is_free = 0, s_next = 0x1058\<rparr>"
    and t: "tail s' = 0x1058"
    by (simp_all add: s'_def overflowed_def)
  have f: "malloc (- 24) (initial 0x1000 0x2000) = None"
    by (simp add: run_defs initial_def)
  have n: "find (fits 64 (hmem overflowed)) [0x1000, 0x1058] = None"
    and t0: "tail overflowed = 0x1058"
    by (simp_all add: fits_def overflowed_def)
  show ?thesis
    using m p e h t f n t0
    by (simp add: malloc_overflowed print_mem_list_overflowed header_size_def)
qed

text \<open>
  Claim C10. \<open>malloc\<close> checks its argument against 0 and nothing else. For every \<open>sz\<close> above
  the largest \<open>size_t\<close> minus \<open>header_size\<close>, the sum \<open>header_size + sz\<close> wraps around: it is
  \<open>sz + 24 - 2 ^ 64\<close>, less than 24 and less than \<open>sz\<close>. In a well-formed state with room
  for that many bytes, \<open>malloc(sz)\<close> asks \<open>sbrk\<close> for the wrapped sum. When the 24 bytes of
  the new header, more than \<open>sbrk\<close> has granted, can be accessed, that is, when they end
  in the page of the new break, the break rises by the wrapped sum, the new header records
  the full \<open>sz\<close>, and the result is not \<open>NULL\<close>. Otherwise the write of the header kills the
  process.
\<close>

theorem malloc_size_wraps:
  assumes ok: "heap_ok s" and pl: "print_mem_list s = Some as"
    and big: "2 ^ 64 - 24 \<le> unat sz"
    and room: "unat (brk s) + (unat sz + 24 - 2 ^ 64) \<le> unat (brk_hi s)"
  shows "unat (header_size + sz) = unat sz + 24 - 2 ^ 64 \<and>
    unat (header_size + sz) < unat sz \<and>
    (if unat (brk s) + 24 \<le> page_up (unat (brk s) + unat (header_size + sz))
     then \<exists>s'. malloc sz s = Some (brk s + header_size, s') \<and> brk s + header_size \<noteq> NULL \<and>
            events s' = events s @ [Lock, Sbrk (header_size + sz), Unlock] \<and>
            unat (brk s') = unat (brk s) + unat (header_size + sz) \<and>
            s_size (hmem s' (brk s)) = sz \<and>
            print_mem_list s' = Some (as @ [brk s]) \<and> tail s' = brk s
     else malloc sz s = None)"
proof -
  note w = wrapped_total [OF big]
  from ok pl obtain
    bnd: "\<And>h. h \<in> set as \<Longrightarrow> blk_end (hmem s) h \<le> unat (brk s)"
    and tl: "tail s = (if as = [] then NULL else last as)"
    and lo: "unat (brk_lo s) \<le> unat (brk s)"
    and hi: "unat (brk s) \<le> unat (brk_hi s)" "unat (brk_hi s) < 2 ^ 63"
    by (auto elim!: heap_okD)
  note hb = heap_ok_brk [OF ok pl]
  have sz: "sz \<noteq> 0"
  proof
    assume "sz = 0"
    then have "unat sz = 0" by simp
    then show False using big by simp
  qed
  have small: "unat (header_size + sz) < unat sz" using w(2) big by simp
  have nofit: "\<not> fits sz (hmem s) h" if "h \<in> set as" for h
  proof -
    have "unat (s_size (hmem s h)) + 24 < 2 ^ 63"
      by (rule blk_arith(3) [OF bnd [OF that] hb(5)])
    then have "unat (s_size (hmem s h)) < unat sz" using big by simp
    then show ?thesis by (simp add: fits_def word_le_nat_alt)
  qed
  then have nf: "find (fits sz (hmem s)) as = None" by (simp add: find_None_iff)
  have "uint (brk_lo s) \<le> uint (brk s) + int (unat (header_size + sz))"
    using lo by (simp only: uint_nat; simp)
  moreover have "uint (brk s) + int (unat (header_size + sz)) \<le> uint (brk_hi s)"
    using room w(1) by (simp only: uint_nat; simp)
  ultimately have sb: "fst (sbrk (header_size + sz) (pthread_mutex_lock s)) \<noteq> - 1"
    using hb(3) by (simp add: sbrk_def pthread_mutex_lock_def Let_def w(3))
  have nb: "unat (brk s + (header_size + sz)) = unat (brk s) + unat (header_size + sz)"
    using hb(5) w(2) by (simp add: unat_word_ariths)
  have tb: "as \<noteq> [] \<Longrightarrow> brk s \<noteq> tail s"
    using tl hb(1) by (metis last_in_set)
  have l: "mem_list (if as = [] then (hmem s)(brk s := \<lparr>s_size = sz, s_is_free = 0, s_next = NULL\<rparr>)
                 else (hmem s)(brk s := \<lparr>s_size = sz, s_is_free = 0, s_next = NULL\<rparr>,
                               tail s := (hmem s (tail s))\<lparr>s_next := brk s\<rparr>))
         (if as = [] then brk s else head s) = Some (as @ [brk s])"
    by (rule carve_list [OF pl tl hb(1,2)]) simp
  have ac: "accessible (s\<lparr>brk := brk s + (header_size + sz)\<rparr>) (brk s) (unat header_size) \<longleftrightarrow>
      unat (brk s) + 24 \<le> page_up (unat (brk s) + unat (header_size + sz))"
    using lo by (simp add: accessible_def nb) (simp add: header_size_def)
  show ?thesis
  proof (cases "unat (brk s) + 24 \<le> page_up (unat (brk s) + unat (header_size + sz))")
    case True
    then have acc: "accessible (s\<lparr>brk := brk s + (header_size + sz)\<rparr>) (brk s) (unat header_size)"
      by (simp add: ac)
    have "\<exists>s'. malloc sz s = Some (brk s + header_size, s') \<and> brk s + header_size \<noteq> NULL \<and>
         events s' = events s @ [Lock, Sbrk (header_size + sz), Unlock] \<and>
         unat (brk s') = unat (brk s) + unat (header_size + sz) \<and>
         s_size (hmem s' (brk s)) = sz \<and>
         print_mem_list s' = Some (as @ [brk s]) \<and> tail s' = brk s"
      using hb(4) nb tb l
      by (simp add: malloc_sbrk_carve [OF pl sz nf sb acc tl hb(1)] print_mem_list_def)
    then show ?thesis using w(1) small True by simp
  next
    case False
    then have "\<not> accessible (s\<lparr>brk := brk s + (header_size + sz)\<rparr>) (brk s) (unat header_size)"
      by (simp add: ac)
    from malloc_sbrk_fault [OF pl sz nf sb this] show ?thesis
      using w(1) small False by simp
  qed
qed

theorem malloc_size_wraps_witness:
  "heap_ok (initial 0x1000 0x2000) \<and> print_mem_list (initial 0x1000 0x2000) = Some [] \<and>
   unat (header_size + (- 1 :: size_t)) = 23 \<and>
   (\<exists>s'. malloc (- 1) (initial 0x1000 0x2000) = Some (0x1018, s') \<and>
         events s' = [Lock, Sbrk 23, Unlock] \<and> brk s' = 0x1017 \<and>
         s_size (hmem s' 0x1000) = - 1 \<and> print_mem_list s' = Some [0x1000])"
proof -
  have ok: "heap_ok (initial 0x1000 0x2000)" by (simp add: heap_ok_initial)
  have u: "unat (- 1 :: size_t) = 2 ^ 64 - 1"
    by (simp add: unsigned_minus_1_eq_mask mask_eq_exp_minus_1)
  have big: "2 ^ 64 - 24 \<le> unat (- 1 :: size_t)" by (simp add: u)
  have room: "unat (brk (initial 0x1000 0x2000)) + (unat (- 1 :: size_t) + 24 - 2 ^ 64)
      \<le> unat (brk_hi (initial 0x1000 0x2000))"
    by (simp add: u initial_def)
  have t0: "unat (header_size + (- 1 :: size_t)) = 23" by (simp add: header_size_def)
  have c: "unat (brk (initial 0x1000 0x2000)) + 24
      \<le> page_up (unat (brk (initial 0x1000 0x2000)) + unat (header_size + (- 1 :: size_t)))"
    unfolding t0 by (simp add: initial_def page_up_def page_size_def)
  from malloc_size_wraps [OF ok print_mem_list_initial big room, unfolded if_P [OF c]]
  obtain s' where m: "malloc (- 1) (initial 0x1000 0x2000) =
        Some (brk (initial 0x1000 0x2000) + header_size, s')"
    and e: "events s' = events (initial 0x1000 0x2000) @ [Lock, Sbrk (header_size + (- 1)), Unlock]"
    and b: "unat (brk s') = unat (brk (initial 0x1000 0x2000)) + unat (header_size + (- 1 :: size_t))"
    and z: "s_size (hmem s' (brk (initial 0x1000 0x2000))) = - 1"
    and p: "print_mem_list s' = Some ([] @ [brk (initial 0x1000 0x2000)])"
    and t: "unat (header_size + (- 1 :: size_t)) = unat (- 1 :: size_t) + 24 - 2 ^ 64"
    by blast
  have t': "unat (header_size + (- 1 :: size_t)) = 23" using t by (simp add: u)
  have "unat (brk s') = unat (0x1017 :: addr)" using b t' by (simp add: initial_def)
  then have b': "brk s' = 0x1017" by (simp only: word_unat_eq_iff)
  have "malloc (- 1) (initial 0x1000 0x2000) = Some (0x1018, s') \<and>
         events s' = [Lock, Sbrk 23, Unlock] \<and> brk s' = 0x1017 \<and>
         s_size (hmem s' 0x1000) = - 1 \<and> print_mem_list s' = Some [0x1000]"
    using m e z p b' by (simp add: initial_def header_size_def)
  then show ?thesis using ok print_mem_list_initial t' by blast
qed

section \<open>Claims about \<open>realloc\<close>\<close>

text \<open>
  Claim C6. \<open>realloc(block, 0)\<close> is \<open>malloc(0)\<close>: it returns \<open>NULL\<close> and the state is as
  before, so the block of a non-null \<open>block\<close> is not released: its header keeps its
  \<open>is_free\<close> flag and its place in the list.
\<close>

theorem realloc_zero_size:
  "realloc block 0 s = malloc 0 s \<and> realloc block 0 s = Some (NULL, s)"
  by (simp add: realloc_def malloc_def)

text \<open>
  Claim C5 as stated (for every \<open>block \<noteq> NULL\<close> and every \<open>sz\<close> up to the recorded size,
  \<open>realloc\<close> returns \<open>block\<close>) fails for \<open>sz = 0\<close>: the block made by \<open>malloc(64)\<close> at process
  start has recorded size 64, and \<open>realloc\<close> of it to size 0 returns \<open>NULL\<close>.
\<close>

theorem realloc_fits_counterexample:
  "malloc 64 (initial 0x1000 0x2000) = Some (0x1018, one_block) \<and>
   (0x1018 :: addr) \<noteq> NULL \<and> (0 :: size_t) \<le> s_size (hmem one_block (0x1018 - header_size)) \<and>
   realloc 0x1018 0 one_block = Some (NULL, one_block) \<and>
   realloc 0x1018 0 one_block \<noteq> Some (0x1018, one_block)"
  by (simp add: malloc_initial realloc_def malloc_zero)

text \<open>
  Claim C5, amended. For every \<open>block \<noteq> NULL\<close> and every \<open>sz\<close> with \<open>0 < sz\<close> and \<open>sz\<close> at
  most the recorded size of the block, \<open>realloc(block, sz)\<close> returns \<open>block\<close> and the state
  is as before: no copy, no allocation, no change of any header.
\<close>

theorem realloc_fits:
  "block \<noteq> NULL \<Longrightarrow> sz \<noteq> 0 \<Longrightarrow> sz \<le> s_size (hmem s (block - header_size)) \<Longrightarrow>
   realloc block sz s = Some (block, s)"
  by (simp add: realloc_def)

theorem realloc_fits_witness:
  "(0x1018 :: addr) \<noteq> NULL \<and> (16 :: size_t) \<noteq> 0 \<and>
   (16 :: size_t) \<le> s_size (hmem one_block (0x1018 - header_size)) \<and>
   realloc 0x1018 16 one_block = Some (0x1018, one_block)"
proof -
  have h: "(16 :: size_t) \<le> s_size (hmem one_block (0x1018 - header_size))"
    by (simp add: one_block_def header_size_def)
  show ?thesis using h realloc_fits [of "0x1018" 16 one_block] by simp
qed

text \<open>
  What \<open>realloc\<close> does when the block has to grow and no size overflows. In a well-formed
  state let \<open>block\<close> be non-null with its header in the directory and recorded size below
  \<open>sz\<close>, where \<open>sz\<close> stays below \<open>2 ^ 63\<close> with the header added. \<open>realloc(block, sz)\<close>
  calls \<open>malloc(sz)\<close>, which returns. If it returns \<open>NULL\<close>, so does \<open>realloc\<close>, and the
  state is as before up to the log: the old block is untouched and still allocated.
  Otherwise the copy is within the contract of \<open>memcpy\<close> (the two blocks can be accessed
  and do not overlap), \<open>realloc\<close> returns the new pointer in the state that \<open>free(block)\<close>
  leaves after the copy, the first \<open>old size\<close> bytes behind the new pointer are those of
  the old payload, the final state is well-formed and the old header is out of the
  directory or marked free.
\<close>

lemma realloc_grows_no_wrap:
  fixes sz :: size_t
  assumes ok: "heap_ok s" and pl: "print_mem_list s = Some as"
    and nz: "block \<noteq> NULL" and hin: "block - header_size \<in> set as"
    and gt: "s_size (hmem s (block - header_size)) < sz"
    and b63: "unat sz + 24 < 2 ^ 63"
  shows "\<exists>ret s1. malloc sz s = Some (ret, s1) \<and>
     (if ret = NULL
      then realloc block sz s = Some (NULL, s1) \<and> s1 = s\<lparr>events := events s1\<rparr>
      else \<exists>s2 s'. memcpy ret block (s_size (hmem s (block - header_size))) s1 = Some s2 \<and>
             free block s2 = Some s' \<and>
             realloc block sz s = Some (ret, s') \<and>
             (\<forall>i < unat (s_size (hmem s (block - header_size))).
                bytes s' (ret + word_of_nat i) = bytes s (block + word_of_nat i)) \<and>
             heap_ok s' \<and>
             (\<exists>as'. print_mem_list s' = Some as' \<and>
                (block - header_size \<notin> set as' \<or>
                 s_is_free (hmem s' (block - header_size)) = 1)))"
proof -
  define h where "h = block - header_size"
  have blk: "block = h + header_size" by (simp add: h_def)
  define old where "old = s_size (hmem s h)"
  have sz: "sz \<noteq> 0" using gt by (metis word_not_simps(1))
  have nle: "\<not> sz \<le> old" using gt by (simp add: old_def h_def)
  from malloc_for_realloc [OF ok pl hin [folded h_def] gt [folded h_def] b63]
  obtain ret s1 as1 where m: "malloc sz s = Some (ret, s1)" and by1: "bytes s1 = bytes s"
    and fl: "ret = NULL \<longrightarrow> s1 = s\<lparr>events := events s1\<rparr>"
    and su: "ret \<noteq> NULL \<longrightarrow>
              s_size (hmem s1 h) = old \<and>
              print_mem_list s1 = Some as1 \<and> h \<in> set as1 \<and>
              tail s1 = (if as1 = [] then NULL else last as1) \<and>
              accessible s1 ret (unat old) \<and> accessible s1 block (unat old) \<and>
              (unat block + unat old \<le> unat ret \<or> unat ret + unat old \<le> unat block)"
    unfolding old_def blk by blast
  have un: "realloc block sz s =
      (if ret \<noteq> NULL
       then Option.bind (memcpy ret block (s_size (hmem s1 h)) s1)
              (\<lambda>s2. Option.bind (free block s2) (\<lambda>s3. Some (ret, s3)))
       else Some (ret, s1))"
    using nz sz nle m by (simp add: realloc_def Let_def h_def old_def)
  show ?thesis
  proof (cases "ret = NULL")
    case True
    then show ?thesis using m fl un by simp
  next
    case False
    with su have s1: "s_size (hmem s1 h) = old" "print_mem_list s1 = Some as1" "h \<in> set as1"
      "tail s1 = (if as1 = [] then NULL else last as1)"
      "unat block + unat old \<le> unat ret \<or> unat ret + unat old \<le> unat block"
      "accessible s1 ret (unat old)" "accessible s1 block (unat old)"
      by simp_all
    define b where "b = (\<lambda>a. if a - ret < old then bytes s1 (block + (a - ret)) else bytes s1 a)"
    have mc: "memcpy ret block old s1 = Some (s1\<lparr>bytes := b\<rparr>)"
      using s1(5,6,7) by (auto simp: memcpy_def b_def)
    from malloc_heap_ok [OF ok b63] m have "heap_ok s1" by auto
    then have ok2: "heap_ok (s1\<lparr>bytes := b\<rparr>)" by simp
    from free_releases [OF ok2 _ s1(3)] s1(2)
    obtain s' as' where fr: "free block (s1\<lparr>bytes := b\<rparr>) = Some s'" and ok': "heap_ok s'"
      and pl': "print_mem_list s' = Some as'" and by': "bytes s' = b"
      and rel: "h \<notin> set as' \<or> s_is_free (hmem s' h) = 1"
      by (auto simp: blk)
    have re: "realloc block sz s = Some (ret, s')"
      using False mc fr by (simp add: un s1(1))
    have cp: "bytes s' (ret + word_of_nat i) = bytes s (block + word_of_nat i)"
      if "i < unat old" for i
      using memcpy_copies [OF mc that] by (simp add: by' by1)
    show ?thesis
      using False m mc fr re cp ok' pl' rel unfolding old_def h_def by auto
  qed
qed

lemma realloc_grows_no_wrap_example:
  "heap_ok two_blocks_data \<and> print_mem_list two_blocks_data = Some [0x1000, 0x1058] \<and>
   heap_ok full_block \<and> print_mem_list full_block = Some [0x1000] \<and>
   bytes two_blocks_data 0x1018 = 0x18 \<and> bytes two_blocks_data 0x1057 = 0x57 \<and>
   (\<exists>s'. realloc 0x1018 128 two_blocks_data = Some (0x10C8, s') \<and> heap_ok s' \<and>
         bytes s' 0x10C8 = 0x18 \<and> bytes s' 0x1107 = 0x57) \<and>
   realloc 0x1018 128 full_block =
     Some (NULL, full_block\<lparr>events := events full_block @ [Lock, Sbrk 152, Unlock]\<rparr>)"
proof -
  have m1: "(0x1018 :: addr) - header_size \<in> set [0x1000, 0x1058]"
    and m2: "(0x1018 :: addr) - header_size \<in> set [0x1000]"
    by (simp_all add: header_size_def)
  have g1: "s_size (hmem two_blocks_data (0x1018 - header_size)) < 128"
    and g2: "s_size (hmem full_block (0x1018 - header_size)) < 128"
    and o1: "s_size (hmem two_blocks_data (0x1018 - header_size)) = 64"
    and d: "bytes two_blocks_data 0x1018 = 0x18" "bytes two_blocks_data 0x1057 = 0x57"
    by (simp_all add: header_size_def two_blocks_data_def two_blocks_def full_block_def
        one_block_def)
  have ma: "\<exists>s1. malloc 128 two_blocks_data = Some (0x10C8, s1)"
    by (simp add: run_defs two_blocks_data_def two_blocks_def)
  have mb: "malloc 128 full_block =
      Some (NULL, full_block\<lparr>events := events full_block @ [Lock, Sbrk 152, Unlock]\<rparr>)"
    by (simp add: run_defs full_block_def one_block_def)
  have a: "\<exists>s'. realloc 0x1018 128 two_blocks_data = Some (0x10C8, s') \<and> heap_ok s' \<and>
         bytes s' 0x10C8 = 0x18 \<and> bytes s' 0x1107 = 0x57"
  proof -
    from realloc_grows_no_wrap
      [OF heap_ok_two_blocks_data print_mem_list_two_blocks_data _ m1 g1] ma
    obtain s' where r: "realloc 0x1018 128 two_blocks_data = Some (0x10C8, s')"
      and c: "\<forall>i < unat (s_size (hmem two_blocks_data (0x1018 - header_size))).
                bytes s' (0x10C8 + word_of_nat i) = bytes two_blocks_data (0x1018 + word_of_nat i)"
      and k: "heap_ok s'"
      by auto
    from c [rule_format, of 0] c [rule_format, of 63] k r d show ?thesis
      by (auto simp: o1)
  qed
  have b: "realloc 0x1018 128 full_block =
     Some (NULL, full_block\<lparr>events := events full_block @ [Lock, Sbrk 152, Unlock]\<rparr>)"
    using realloc_grows_no_wrap [OF heap_ok_full_block print_mem_list_full_block _ m2 g2] mb
    by auto
  show ?thesis
    using a b d heap_ok_two_blocks_data print_mem_list_two_blocks_data heap_ok_full_block
      print_mem_list_full_block by simp
qed

text \<open>
  Claim C4. What the claim says of \<open>realloc\<close> fails where \<open>header_size + size\<close> overflows in
  \<open>malloc\<close>. Let \<open>a = malloc(64)\<close> at process start and take \<open>realloc(a, SIZE_MAX - 23)\<close>.
  The new size is larger than the recorded 64, and \<open>malloc\<close> succeeds: the total size
  wraps to 0, the new header is written at the break, which does not move, and the new
  pointer is \<open>0x1070\<close>. After the copy \<open>free(a)\<close> finds that the block of \<open>a\<close> ends at the
  break, unlinks the tail of the list, which is the new header, and lowers the break onto
  the header of \<open>a\<close>. \<open>realloc\<close> returns the new pointer: its header is not in the
  directory, its bytes lie above the break in memory that cannot be accessed any more, and
  the old block is not released: its header is the only one of the directory and is not
  marked free.
\<close>

theorem realloc_after_overflow:
  "(0x1018 :: addr) \<noteq> NULL \<and> in_dir (0x1018 - header_size) one_block \<and>
   s_size (hmem one_block (0x1018 - header_size)) < - 24 \<and>
   (\<exists>s1. malloc (- 24) one_block = Some (0x1070, s1)) \<and>
   (\<exists>s'. realloc 0x1018 (- 24) one_block = Some (0x1070, s') \<and>
         print_mem_list s' = Some [0x1000] \<and> s_is_free (hmem s' 0x1000) = 0 \<and>
         brk s' = 0x1000 \<and> \<not> accessible s' 0x1070 64)"
proof -
  have i: "in_dir (0x1018 - header_size) one_block"
    by (simp add: header_size_def in_dir_one_block)
  have l: "s_size (hmem one_block (0x1018 - header_size)) < - 24"
    by (simp add: header_size_def one_block_def)
  have nle: "\<not> - 24 \<le> s_size (hmem one_block (0x1018 - header_size))"
    by (simp add: header_size_def one_block_def)
  have o: "s_size (hmem overflowed (0x1018 - header_size)) = 64"
    by (simp add: header_size_def overflowed_def)
  have bz: "bytes overflowed = (\<lambda>a. 0)" and bk: "brk overflowed = 0x1058"
    and bl: "brk_lo overflowed = 0x1000" and same: "overflowed\<lparr>bytes := (\<lambda>a. 0)\<rparr> = overflowed"
    by (simp_all add: overflowed_def)
  have c: "memcpy 0x1070 0x1018 64 overflowed = Some overflowed"
    by (simp add: memcpy_def accessible_def page_up_def page_size_def bz bk bl same
        cong: if_cong)
  define s' where "s' = the (free 0x1018 overflowed)"
  have fr: "free 0x1018 overflowed = Some s'" by (simp add: s'_def free_overflowed)
  have r: "realloc 0x1018 (- 24) one_block = Some (0x1070, s')"
    using nle by (simp add: realloc_def malloc_overflowed Let_def o c fr)
  have p: "print_mem_list s' = Some [0x1000]" and f: "s_is_free (hmem s' 0x1000) = 0"
    and b: "brk s' = 0x1000" and a: "\<not> accessible s' 0x1070 64"
    by (simp_all add: s'_def free_overflowed print_mem_list_def mem_list_step
        accessible_def page_up_def page_size_def)
  show ?thesis
    using i l r p f b a by (simp add: malloc_overflowed)
qed

section \<open>The claim about the fields of a header\<close>




end
